theory Spec2Isabelle
  imports Main "HOL-Library.Word" "HOL-Library.Multiset" "HOL-Library.AList"
begin

section \<open>client.go: operation kinds and constants\<close>

text \<open>
  \<^verbatim>\<open>type operationPrefix byte\<close> with the eight constants \<^verbatim>\<open>HDel = iota + 1\<close>, \<^verbatim>\<open>Expire\<close>, ...
  The package only ever builds these eight values, so the kind is an enumeration;
  \<open>operationPrefix_byte\<close> is the byte each constant stands for.
\<close>

datatype operationPrefix = HDel | Expire | HGet | HGetAll | Get | Del | SMembers | MGet

fun operationPrefix_byte :: "operationPrefix \<Rightarrow> char" where
  "operationPrefix_byte HDel = CHR 0x01"
| "operationPrefix_byte Expire = CHR 0x02"
| "operationPrefix_byte HGet = CHR 0x03"
| "operationPrefix_byte HGetAll = CHR 0x04"
| "operationPrefix_byte Get = CHR 0x05"
| "operationPrefix_byte Del = CHR 0x06"
| "operationPrefix_byte SMembers = CHR 0x07"
| "operationPrefix_byte MGet = CHR 0x08"

definition resultChannelBufferSize :: nat where
  "resultChannelBufferSize = 1"

text \<open>
  The package's error values, \<^verbatim>\<open>redis.Nil\<close> of the client library, an error wrapped by
  \<^verbatim>\<open>fmt.Errorf("%w: %s", e, s)\<close>, and any other error of the transport.
\<close>

datatype go_error =
    ErrChannelClosed
  | ErrRedisIsNil
  | ErrHashNotFound
  | ErrCacheStopped
  | RedisNil
  | Wrapped go_error string
  | TransportError string

text \<open>\<^verbatim>\<open>errors.Is(err, redis.Nil)\<close>: the error or one it wraps is \<^verbatim>\<open>redis.Nil\<close>.\<close>

fun errors_Is_RedisNil :: "go_error \<Rightarrow> bool" where
  "errors_Is_RedisNil RedisNil = True"
| "errors_Is_RedisNil (Wrapped e s) = errors_Is_RedisNil e"
| "errors_Is_RedisNil e = False"

section \<open>hash.go\<close>

definition hashDelimiter :: string where
  "hashDelimiter = '',''"

text \<open>
  The bytes \<^verbatim>\<open>hashStringSlice\<close> writes into its buffer: the kind's byte, then every
  argument followed by the delimiter. A Go string is a byte sequence, as \<open>string\<close> is.
\<close>

definition hashBuffer :: "operationPrefix \<Rightarrow> string list \<Rightarrow> string" where
  "hashBuffer operation as =
     operationPrefix_byte operation # concat (map (\<lambda>s. s @ hashDelimiter) as)"

text \<open>\<^verbatim>\<open>fmt.Sprintf("%x", hash)\<close> of a byte array: two lower-case hex digits for each byte.\<close>

definition hex_digit :: "nat \<Rightarrow> char" where
  "hex_digit d = ''0123456789abcdef'' ! (d mod 16)"

definition sprintf_x :: "string \<Rightarrow> string" where
  "sprintf_x bs =
     concat (map (\<lambda>b. [hex_digit (of_char b div 16), hex_digit (of_char b mod 16)]) bs)"

text \<open>
  \<^verbatim>\<open>sha256.Sum256\<close> belongs to Go's standard library, not to this package: the digest
  function is the parameter \<open>sha256\<close>, from the buffer's bytes to the 32 bytes of the digest.
\<close>

definition hashStringSlice :: "(string \<Rightarrow> string) \<Rightarrow> operationPrefix \<Rightarrow> string list \<Rightarrow> string" where
  "hashStringSlice sha256 operation as = sprintf_x (sha256 (hashBuffer operation as))"

section \<open>strconv.Itoa and strconv.Atoi\<close>

text \<open>
  Go's \<^verbatim>\<open>int\<close> has \<open>intSize\<close> bits (32 or 64, \<^verbatim>\<open>strconv.IntSize\<close>). A conversion to
  \<^verbatim>\<open>int\<close> keeps the low \<open>intSize\<close> bits, read as two's complement.
\<close>

definition go_int :: "nat \<Rightarrow> int \<Rightarrow> int" where
  "go_int intSize x = signed_take_bit (intSize - 1) x"

definition digit_char :: "nat \<Rightarrow> char" where
  "digit_char d = char_of (48 + d)"

fun format_nat :: "nat \<Rightarrow> string" where
  "format_nat n = (if n < 10 then [digit_char n] else format_nat (n div 10) @ [digit_char (n mod 10)])"

declare format_nat.simps [simp del]

text \<open>\<^verbatim>\<open>strconv.Itoa(i)\<close>: decimal digits, with a leading minus sign for a negative number.\<close>

definition Itoa :: "int \<Rightarrow> string" where
  "Itoa i = (if i < 0 then CHR ''-'' # format_nat (nat (- i)) else format_nat (nat i))"

text \<open>
  \<^verbatim>\<open>strconv.ParseUint(s, 10, intSize)\<close>, as the loop of the standard library runs: it
  scans the bytes from the left; a byte that is no decimal digit is a syntax error (value 0),
  and once the number read so far exceeds \<open>2 ^ intSize - 1\<close> it stops with a range error
  (value \<open>2 ^ intSize - 1\<close>), before looking at the bytes that follow.
\<close>

datatype parse_result = Parsed nat | SyntaxError | RangeError

fun parseUint_loop :: "nat \<Rightarrow> string \<Rightarrow> nat \<Rightarrow> parse_result" where
  "parseUint_loop maxVal [] n = Parsed n"
| "parseUint_loop maxVal (c # cs) n =
     (if (of_char c :: nat) < 48 \<or> 57 < (of_char c :: nat) then SyntaxError
      else if maxVal < n * 10 + (of_char c - 48) then RangeError
      else parseUint_loop maxVal cs (n * 10 + (of_char c - 48)))"

definition ParseUint :: "nat \<Rightarrow> string \<Rightarrow> parse_result" where
  "ParseUint intSize s = (if s = [] then SyntaxError else parseUint_loop (2 ^ intSize - 1) s 0)"

text \<open>
  The value \<^verbatim>\<open>strconv.Atoi(s)\<close> returns (its error is dropped by \<^verbatim>\<open>normalizeExpire\<close>):
  an optional sign, then \<^verbatim>\<open>ParseUint\<close>; 0 on a syntax error, the nearest bound of
  \<^verbatim>\<open>int\<close> on a range error. Atoi's fast path for short strings returns the same values.
\<close>

definition Atoi :: "nat \<Rightarrow> string \<Rightarrow> int" where
  "Atoi intSize s =
     (if s = [] then 0
      else let neg = (hd s = CHR ''-'');
               s1 = (if hd s = CHR ''+'' \<or> hd s = CHR ''-'' then tl s else s);
               cutoff = (2 :: nat) ^ (intSize - 1)
           in case ParseUint intSize s1 of
                SyntaxError \<Rightarrow> 0
              | RangeError \<Rightarrow> (if neg then - int cutoff else int cutoff - 1)
              | Parsed un \<Rightarrow>
                  (if \<not> neg \<and> cutoff \<le> un then int cutoff - 1
                   else if neg \<and> cutoff < un then - int cutoff
                   else if neg then - int un else int un))"

section \<open>transformer.go\<close>

text \<open>
  A slice of strings is a list; \<^verbatim>\<open>nil\<close> and the empty slice are both \<open>[]\<close>.
  \<^verbatim>\<open>values[i]\<close> beyond the slice's length panics (index out of range): the normalize
  functions that index return \<open>None\<close> there.
\<close>

definition transformHDel :: "string \<Rightarrow> string list \<Rightarrow> string list" where
  "transformHDel key fields = (if length fields = 0 then [key] else key # fields)"

definition normalizeHDel :: "string list \<Rightarrow> (string \<times> string list) option" where
  "normalizeHDel values =
     (if length values = 0 then None
      else if length values = 1 then Some (values ! 0, [])
      else Some (values ! 0, drop 1 values))"

definition transformDel :: "string list \<Rightarrow> string list" where
  "transformDel keys = keys"

definition normalizeDel :: "string list \<Rightarrow> string list" where
  "normalizeDel values = values"

definition transformMGet :: "string list \<Rightarrow> string list" where
  "transformMGet keys = keys"

definition normalizeMGet :: "string list \<Rightarrow> string list" where
  "normalizeMGet values = values"

definition transformHGet :: "string \<Rightarrow> string \<Rightarrow> string list" where
  "transformHGet key field = [key, field]"

definition normalizeHGet :: "string list \<Rightarrow> (string \<times> string) option" where
  "normalizeHGet values =
     (if length values < 2 then None else Some (values ! 0, values ! 1))"

definition transformGet :: "string \<Rightarrow> string list" where
  "transformGet key = [key]"

definition normalizeGet :: "string list \<Rightarrow> string option" where
  "normalizeGet values = (if length values < 1 then None else Some (values ! 0))"

definition transformHGetAll :: "string \<Rightarrow> string list" where
  "transformHGetAll key = [key]"

definition normalizeHGetAll :: "string list \<Rightarrow> string option" where
  "normalizeHGetAll values = (if length values < 1 then None else Some (values ! 0))"

definition transformSMembers :: "string \<Rightarrow> string list" where
  "transformSMembers key = [key]"

definition normalizeSMembers :: "string list \<Rightarrow> string option" where
  "normalizeSMembers values = (if length values < 1 then None else Some (values ! 0))"

text \<open>
  A \<^verbatim>\<open>time.Duration\<close> is an \<^verbatim>\<open>int64\<close> count of nanoseconds, here an \<open>int\<close>.
  \<^verbatim>\<open>int(expiration.Nanoseconds())\<close> converts it to \<^verbatim>\<open>int\<close>; \<^verbatim>\<open>time.Duration(nanoseconds)\<close>
  widens an \<^verbatim>\<open>int\<close> back to 64 bits, which changes no value.
\<close>

definition transformExpire :: "nat \<Rightarrow> string \<Rightarrow> int \<Rightarrow> string list" where
  "transformExpire intSize key expiration = [key, Itoa (go_int intSize expiration)]"

definition normalizeExpire :: "nat \<Rightarrow> string list \<Rightarrow> (string \<times> int) option" where
  "normalizeExpire intSize values =
     (if length values < 2 then None
      else let nanoseconds = Atoi intSize (values ! 1) in Some (values ! 0, nanoseconds))"

section \<open>The cache: operations, channels and the log\<close>

text \<open>
  What the pipeline of the go-redis client is asked to run: one constructor for each
  \<^verbatim>\<open>pipe.HDel\<close>, \<^verbatim>\<open>pipe.Del\<close>, ... with the arguments \<^verbatim>\<open>runPipeline\<close> passes, and the
  type of the command object the call returns (\<^verbatim>\<open>*redis.IntCmd\<close>, ...).
\<close>

datatype redis_call =
    HDelCall string "string list"
  | DelCall "string list"
  | MGetCall "string list"
  | HGetCall string string
  | GetCall string
  | HGetAllCall string
  | SMembersCall string
  | ExpireCall string int

datatype cmd_type = IntCmd | SliceCmd | StringCmd | MapStringStringCmd | StringSliceCmd | BoolCmd

text \<open>
  The value a listener receives: the command object, that is its type, the call it was
  queued with, and the reply \<^verbatim>\<open>Exec\<close> stored in it (opaque to this package).
\<close>

datatype redis_cmd = RedisCmd cmd_type redis_call string

text \<open>
  A result handle is a Go channel of capacity \<open>resultChannelBufferSize\<close>. Channels live
  in a store addressed by number: \<^verbatim>\<open>make\<close> appends a fresh channel and returns its
  address. A channel is its buffer and whether it has been closed.
\<close>

record chan =
  chan_closed :: bool
  chan_buf :: "redis_cmd list"

definition make_chan :: "chan list \<Rightarrow> nat \<times> chan list" where
  "make_chan h = (length h, h @ [\<lparr>chan_closed = False, chan_buf = []\<rparr>])"

text \<open>
  \<^verbatim>\<open>close(ch)\<close>. The package closes only the channel \<^verbatim>\<open>enqueue\<close> has just made; a caller
  closes its own handle. (Closing a closed channel panics in Go; no function here does it.)
\<close>

definition close_chan :: "nat \<Rightarrow> chan list \<Rightarrow> chan list" where
  "close_chan r h = (if r < length h then h[r := (h ! r)\<lparr>chan_closed := True\<rparr>] else h)"

text \<open>
  \<^verbatim>\<open>r <- v\<close>: a send on a closed channel panics; on an open channel with room in its buffer
  it stores the value; with a full buffer it blocks until the caller reads. An address that
  holds no channel behaves as Go's nil channel, where a send blocks forever.
\<close>

datatype send_result = Sent "chan list" | SendPanics | SendBlocks

definition chan_send :: "nat \<Rightarrow> redis_cmd \<Rightarrow> chan list \<Rightarrow> send_result" where
  "chan_send r v h =
     (if length h \<le> r then SendBlocks
      else if chan_closed (h ! r) then SendPanics
      else if length (chan_buf (h ! r)) < resultChannelBufferSize
        then Sent (h[r := (h ! r)\<lparr>chan_buf := chan_buf (h ! r) @ [v]\<rparr>])
      else SendBlocks)"

text \<open>
  \<^verbatim>\<open>v, ok := <-r\<close> as the caller sees it: the oldest buffered value; on an empty closed
  channel \<^verbatim>\<open>ok\<close> is false; on an empty open channel the receive blocks.
\<close>

datatype recv_result = Received redis_cmd | RecvClosed | RecvBlocks

definition chan_recv :: "nat \<Rightarrow> chan list \<Rightarrow> recv_result" where
  "chan_recv r h =
     (if length h \<le> r then RecvBlocks
      else case chan_buf (h ! r) of
             v # vs \<Rightarrow> Received v
           | [] \<Rightarrow> (if chan_closed (h ! r) then RecvClosed else RecvBlocks))"

text \<open>What the \<^verbatim>\<open>Logger\<close> is given: an error, or the value of a recovered panic.\<close>

datatype log_entry = LogError go_error | LogRecovered string

record redisOperation =
  args :: "string list"
  listeners :: "nat list"
  kind :: operationPrefix

text \<open>
  The \<^verbatim>\<open>cache\<close> struct. \<open>storage\<close> is the Go map as an association list with one pair for
  each key; \<open>activeListeners\<close> and \<open>storageThresholdSize\<close> are \<^verbatim>\<open>int32\<close>, compared
  signed; times are in nanoseconds, \<open>lastPipeline\<close> in microseconds; \<open>stopped\<close> is the
  field \<^verbatim>\<open>done\<close>; \<open>logged\<close> collects what the logger has been given; \<open>chans\<close> is the
  store of the channels made so far. The mutex and the client have no state of their own
  here: the functions below run one at a time, and the client's answers are inputs.
\<close>

record cache =
  storage :: "(string \<times> redisOperation) list"
  activeListeners :: "32 word"
  storageThresholdSize :: "32 word"
  storageThresholdTime :: int
  runInterval :: int
  lastPipeline :: int
  logged :: "log_entry list"
  stopped :: bool
  chans :: "chan list"

text \<open>
  \<^verbatim>\<open>newCache\<close> at time \<open>now\<close> (nanoseconds since the epoch): \<^verbatim>\<open>int32(size)\<close> (here \<open>maxSize\<close>) keeps the low
  32 bits of the \<^verbatim>\<open>uint\<close>, and \<^verbatim>\<open>UnixMicro\<close> rounds the time down to microseconds.
\<close>

definition newCache :: "int \<Rightarrow> int \<Rightarrow> int \<Rightarrow> nat \<Rightarrow> cache" where
  "newCache now ttl interval maxSize =
     \<lparr>storage = [], activeListeners = 0, storageThresholdSize = of_nat maxSize,
      storageThresholdTime = ttl, runInterval = interval, lastPipeline = now div 1000,
      logged = [], stopped = False, chans = []\<rparr>"

section \<open>enqueue\<close>

definition enqueue :: "(string \<Rightarrow> string) \<Rightarrow> operationPrefix \<Rightarrow> string list \<Rightarrow> cache \<Rightarrow> nat \<times> cache" where
  "enqueue sha256 k as c =
     (let (resultCh, h1) = make_chan (chans c) in
      if stopped c
      then (resultCh, c\<lparr>logged := logged c @ [LogError ErrCacheStopped],
                         chans := close_chan resultCh h1\<rparr>)
      else let h = hashStringSlice sha256 k as in
        case map_of (storage c) h of
          None \<Rightarrow>
            (resultCh, c\<lparr>storage := storage c @ [(h, \<lparr>args = as, listeners = [resultCh], kind = k\<rparr>)],
                          activeListeners := activeListeners c + 1,
                          chans := h1\<rparr>)
        | Some ro \<Rightarrow>
            (resultCh, c\<lparr>storage := AList.update h (ro\<lparr>listeners := listeners ro @ [resultCh]\<rparr>) (storage c),
                          activeListeners := activeListeners c + 1,
                          chans := h1\<rparr>))"

section \<open>sendResult\<close>

text \<open>
  The loop over the listeners. A panic of the send leaves the loop (it is recovered by the
  deferred function of \<^verbatim>\<open>sendResult\<close>, after the loop); a send that blocks never returns.
\<close>

datatype deliver_result = Delivered cache | Recovered cache | Stuck

fun deliver :: "redis_cmd \<Rightarrow> nat list \<Rightarrow> cache \<Rightarrow> deliver_result" where
  "deliver v [] c = Delivered c"
| "deliver v (r # rs) c =
     (case chan_send r v (chans c) of
        SendPanics \<Rightarrow> Recovered c
      | SendBlocks \<Rightarrow> Stuck
      | Sent h \<Rightarrow> deliver v rs (c\<lparr>chans := h, activeListeners := activeListeners c - 1\<rparr>))"

text \<open>\<open>None\<close>: the call never returns (a send blocks).\<close>

definition sendResult :: "string \<Rightarrow> redis_cmd \<Rightarrow> cache \<Rightarrow> cache option" where
  "sendResult hash redisCmd c =
     (case map_of (storage c) hash of
        None \<Rightarrow> Some (c\<lparr>logged := logged c @ [LogError (Wrapped ErrHashNotFound hash)]\<rparr>)
      | Some ro \<Rightarrow>
          (case deliver redisCmd (listeners ro) (c\<lparr>storage := AList.delete hash (storage c)\<rparr>) of
             Delivered c' \<Rightarrow> Some c'
           | Recovered c' \<Rightarrow> Some (c'\<lparr>logged := logged c' @ [LogRecovered ''send on closed channel'']\<rparr>)
           | Stuck \<Rightarrow> None))"

section \<open>runPipeline\<close>

text \<open>
  What a flush takes from outside: the order in which each \<^verbatim>\<open>range\<close> over a Go map yields
  its keys (Go leaves it unspecified; \<open>range_order m ks\<close> reorders the keys \<open>ks\<close> of the
  map \<open>m\<close>), the error \<^verbatim>\<open>pipe.Exec\<close> returns, the reply it stores in the command queued
  under each hash, and the time \<^verbatim>\<open>time.Now()\<close> shows after it.
\<close>

datatype go_map = StorageMap | CmdMap cmd_type

record flush_env =
  range_order :: "go_map \<Rightarrow> string list \<Rightarrow> string list"
  exec_error :: "go_error option"
  exec_reply :: "string \<Rightarrow> string"
  exec_now :: int

definition go_range :: "(string list \<Rightarrow> string list) \<Rightarrow> (string \<times> 'v) list \<Rightarrow> (string \<times> 'v) list" where
  "go_range ord al = List.map_filter (\<lambda>k. map_option (Pair k) (map_of al k)) (ord (map fst al))"

text \<open>
  One case of the \<^verbatim>\<open>switch op.kind\<close>: the call queued in the pipeline and the type of its
  command object; \<open>None\<close> when the normalize function panics on a slice that is too short.
\<close>

definition queue_cmd :: "nat \<Rightarrow> redisOperation \<Rightarrow> (cmd_type \<times> redis_call) option" where
  "queue_cmd intSize ro =
     (case kind ro of
        HDel \<Rightarrow> map_option (\<lambda>(key, fields). (IntCmd, HDelCall key fields)) (normalizeHDel (args ro))
      | Del \<Rightarrow> Some (IntCmd, DelCall (normalizeDel (args ro)))
      | MGet \<Rightarrow> Some (SliceCmd, MGetCall (normalizeMGet (args ro)))
      | HGet \<Rightarrow> map_option (\<lambda>(key, field). (StringCmd, HGetCall key field)) (normalizeHGet (args ro))
      | Get \<Rightarrow> map_option (\<lambda>key. (StringCmd, GetCall key)) (normalizeGet (args ro))
      | HGetAll \<Rightarrow> map_option (\<lambda>key. (MapStringStringCmd, HGetAllCall key)) (normalizeHGetAll (args ro))
      | SMembers \<Rightarrow> map_option (\<lambda>key. (StringSliceCmd, SMembersCall key)) (normalizeSMembers (args ro))
      | Expire \<Rightarrow> map_option (\<lambda>(key, duration). (BoolCmd, ExpireCall key duration))
                    (normalizeExpire intSize (args ro)))"

text \<open>The first loop: every operation of the snapshot is queued, under its hash.\<close>

fun queue_all :: "nat \<Rightarrow> (string \<times> redisOperation) list \<Rightarrow> (string \<times> cmd_type \<times> redis_call) list option" where
  "queue_all intSize [] = Some []"
| "queue_all intSize ((hash, ro) # rest) =
     (case queue_cmd intSize ro of
        None \<Rightarrow> None
      | Some q \<Rightarrow> (case queue_all intSize rest of
                     None \<Rightarrow> None
                   | Some qs \<Rightarrow> Some ((hash, q) # qs)))"

text \<open>
  One of the six maps \<^verbatim>\<open>intCmds\<close>, \<^verbatim>\<open>sliceCmds\<close>, ... after \<^verbatim>\<open>Exec\<close>: the commands of the
  type \<open>t\<close>, each holding its reply.
\<close>

definition cmds_of :: "cmd_type \<Rightarrow> flush_env \<Rightarrow> (string \<times> cmd_type \<times> redis_call) list \<Rightarrow> (string \<times> redis_cmd) list" where
  "cmds_of t env pipe =
     map (\<lambda>(hash, t', call). (hash, RedisCmd t call (exec_reply env hash)))
       (filter (\<lambda>(hash, t', call). t' = t) pipe)"

fun send_all :: "(string \<times> redis_cmd) list \<Rightarrow> cache \<Rightarrow> cache option" where
  "send_all [] c = Some c"
| "send_all ((hash, cmd) # rest) c =
     (case sendResult hash cmd c of None \<Rightarrow> None | Some c' \<Rightarrow> send_all rest c')"

text \<open>The six delivery loops, in the order of the source.\<close>

definition deliveries :: "flush_env \<Rightarrow> (string \<times> cmd_type \<times> redis_call) list \<Rightarrow> (string \<times> redis_cmd) list" where
  "deliveries env pipe =
     concat (map (\<lambda>t. go_range (range_order env (CmdMap t)) (cmds_of t env pipe))
       [IntCmd, SliceCmd, StringCmd, MapStringStringCmd, StringSliceCmd, BoolCmd])"

text \<open>The test \<^verbatim>\<open>err != nil && !errors.Is(err, redis.Nil)\<close>.\<close>

definition bulk_failure :: "go_error option \<Rightarrow> bool" where
  "bulk_failure err = (case err of None \<Rightarrow> False | Some e \<Rightarrow> \<not> errors_Is_RedisNil e)"

text \<open>
  How a flush ends: it returns after the deliveries, it returns early on the bulk error, a
  normalize function panics (nothing in \<^verbatim>\<open>runPipeline\<close> recovers it), or a send blocks.
  The result also holds the calls queued in the pipeline, which is what the client is sent.
  In the last two cases \<^verbatim>\<open>runPipeline\<close> does not return; the result then holds the cache
  the flush started from.
\<close>

datatype flush_outcome = Completed | BulkFailed | Crashed | Stalled

definition runPipeline :: "nat \<Rightarrow> flush_env \<Rightarrow> cache \<Rightarrow> flush_outcome \<times> (string \<times> cmd_type \<times> redis_call) list \<times> cache" where
  "runPipeline intSize env c =
     (case queue_all intSize (go_range (range_order env StorageMap) (storage c)) of
        None \<Rightarrow> (Crashed, [], c)
      | Some pipe \<Rightarrow>
          if bulk_failure (exec_error env)
          then (BulkFailed, pipe, c\<lparr>logged := logged c @ [LogError (the (exec_error env))]\<rparr>)
          else (case send_all (deliveries env pipe) (c\<lparr>lastPipeline := exec_now env div 1000\<rparr>) of
                  None \<Rightarrow> (Stalled, pipe, c)
                | Some c' \<Rightarrow> (Completed, pipe, c')))"

section \<open>run\<close>

text \<open>
  The \<^verbatim>\<open>default\<close> branch of the loop, after the sleep: one tick. \<open>tick_now\<close> is what
  \<^verbatim>\<open>time.Now()\<close> shows at the time check. \<^verbatim>\<open>time.UnixMicro\<close>, \<^verbatim>\<open>Add\<close> and \<^verbatim>\<open>Before\<close>
  compare instants; here these are nanoseconds since the epoch. The two loads of the
  listener counter read the same cache: no \<^verbatim>\<open>enqueue\<close> runs inside a tick here.
\<close>

record tick_env =
  tick_now :: int
  tick_flush :: flush_env

datatype trigger = SizeTrigger | TimeTrigger

datatype tick_result =
    NoFlush cache
  | Flush trigger "flush_outcome \<times> (string \<times> cmd_type \<times> redis_call) list \<times> cache"

definition tick :: "nat \<Rightarrow> tick_env \<Rightarrow> cache \<Rightarrow> tick_result" where
  "tick intSize te c =
     (if sint (storageThresholdSize c) < sint (activeListeners c)
      then Flush SizeTrigger (runPipeline intSize (tick_flush te) c)
      else let lastRun = lastPipeline c * 1000 in
        if lastRun + storageThresholdTime c < tick_now te \<and> 0 < sint (activeListeners c)
        then Flush TimeTrigger (runPipeline intSize (tick_flush te) c)
        else NoFlush c)"

text \<open>
  The loop, driven by what each iteration of the \<^verbatim>\<open>select\<close> meets: the context is done,
  or a tick. It stops when the inputs end (the loop is still alive), when it returns after
  the context is done, or when a flush does not return.
\<close>

datatype run_input = ContextDone flush_env | Tick tick_env

datatype run_status = Alive | Returned | Dead

fun flush_returns :: "flush_outcome \<Rightarrow> bool" where
  "flush_returns Completed = True"
| "flush_returns BulkFailed = True"
| "flush_returns Crashed = False"
| "flush_returns Stalled = False"

fun run :: "nat \<Rightarrow> run_input list \<Rightarrow> cache \<Rightarrow> run_status \<times> cache" where
  "run intSize [] c = (Alive, c)"
| "run intSize (ContextDone env # rest) c =
     (let c1 = c\<lparr>stopped := True\<rparr> in
      if 0 < sint (activeListeners c1)
      then (case runPipeline intSize env c1 of
              (outcome, pipe, c2) \<Rightarrow> (if flush_returns outcome then Returned else Dead, c2))
      else (Returned, c1))"
| "run intSize (Tick te # rest) c =
     (case tick intSize te c of
        NoFlush c' \<Rightarrow> run intSize rest c'
      | Flush tr (outcome, pipe, c') \<Rightarrow>
          (if flush_returns outcome then run intSize rest c' else (Dead, c')))"

section \<open>Well-formed caches\<close>

text \<open>All handles that wait in the storage, entry after entry.\<close>

definition all_listeners :: "(string \<times> redisOperation) list \<Rightarrow> nat list" where
  "all_listeners st = concat (map (\<lambda>(hash, ro). listeners ro) st)"

text \<open>
  What \<^verbatim>\<open>enqueue\<close> and \<^verbatim>\<open>sendResult\<close> maintain: the storage has one entry for each key;
  every waiting handle stands in one listener list, once; it is a channel \<^verbatim>\<open>enqueue\<close> has
  made, and nothing has been sent on it yet (only \<^verbatim>\<open>sendResult\<close> sends, after it has
  taken the entry out of the storage).
\<close>

definition cache_wf :: "cache \<Rightarrow> bool" where
  "cache_wf c =
     (distinct (map fst (storage c)) \<and> distinct (all_listeners (storage c))
      \<and> list_all (\<lambda>r. r < length (chans c) \<and> chan_buf (chans c ! r) = []) (all_listeners (storage c)))"

text \<open>
  The listener counter agrees with the storage: it is the number of waiting handles, as an
  \<^verbatim>\<open>int32\<close> (equal modulo \<open>2 ^ 32\<close>).
\<close>

definition counter_inv :: "cache \<Rightarrow> bool" where
  "counter_inv c = (activeListeners c = of_nat (length (all_listeners (storage c))))"

text \<open>No waiting handle has been closed by its caller.\<close>

definition listeners_open :: "cache \<Rightarrow> bool" where
  "listeners_open c = list_all (\<lambda>r. \<not> chan_closed (chans c ! r)) (all_listeners (storage c))"

text \<open>The handles that wait for one of the keys \<open>K\<close>.\<close>

definition listeners_of :: "string set \<Rightarrow> (string \<times> redisOperation) list \<Rightarrow> nat set" where
  "listeners_of K st = {r. \<exists>hash ro. (hash, ro) \<in> set st \<and> hash \<in> K \<and> r \<in> set (listeners ro)}"

text \<open>The command object of a queued call, once \<^verbatim>\<open>Exec\<close> has stored the reply in it.\<close>

definition cmd_of :: "flush_env \<Rightarrow> string \<times> cmd_type \<times> redis_call \<Rightarrow> string \<times> redis_cmd" where
  "cmd_of env q = (case q of (hash, t, call) \<Rightarrow> (hash, RedisCmd t call (exec_reply env hash)))"

fun tick_flushes :: "tick_result \<Rightarrow> bool" where
  "tick_flushes (NoFlush c) = False"
| "tick_flushes (Flush tr res) = True"

section \<open>Example states\<close>

text \<open>
  The two fingerprints of \<^verbatim>\<open>TestHashStringSlice\<close>: of \<^verbatim>\<open>HDel\<close> with \<^verbatim>\<open>["abc"]\<close> and with
  \<^verbatim>\<open>["a", "b", "c"]\<close>, and a digest function that returns the SHA-256 digests of these two
  buffers (and 32 zero bytes for any other input).
\<close>

definition fp_abc :: string where
  "fp_abc = ''5b14979300b6bec9418599a4f0b5770cb99c4f20ae4914a178f0e5025a3d925e''"

definition fp_a_b_c :: string where
  "fp_a_b_c = ''6b23e5291e4989b8a7684eafdee18b55b0a2cab016d4a42a3feb7d70157c8a4f''"

definition test_digest :: "string \<Rightarrow> string" where
  "test_digest bs =
     (if bs = hashBuffer HDel [''abc'']
      then [CHR 0x5b, CHR 0x14, CHR 0x97, CHR 0x93, CHR 0x00, CHR 0xb6, CHR 0xbe, CHR 0xc9,
            CHR 0x41, CHR 0x85, CHR 0x99, CHR 0xa4, CHR 0xf0, CHR 0xb5, CHR 0x77, CHR 0x0c,
            CHR 0xb9, CHR 0x9c, CHR 0x4f, CHR 0x20, CHR 0xae, CHR 0x49, CHR 0x14, CHR 0xa1,
            CHR 0x78, CHR 0xf0, CHR 0xe5, CHR 0x02, CHR 0x5a, CHR 0x3d, CHR 0x92, CHR 0x5e]
      else if bs = hashBuffer HDel [''a'', ''b'', ''c'']
      then [CHR 0x6b, CHR 0x23, CHR 0xe5, CHR 0x29, CHR 0x1e, CHR 0x49, CHR 0x89, CHR 0xb8,
            CHR 0xa7, CHR 0x68, CHR 0x4e, CHR 0xaf, CHR 0xde, CHR 0xe1, CHR 0x8b, CHR 0x55,
            CHR 0xb0, CHR 0xa2, CHR 0xca, CHR 0xb0, CHR 0x16, CHR 0xd4, CHR 0xa4, CHR 0x2a,
            CHR 0x3f, CHR 0xeb, CHR 0x7d, CHR 0x70, CHR 0x15, CHR 0x7c, CHR 0x8a, CHR 0x4f]
      else replicate 32 (CHR 0x00))"

definition open_chan :: chan where
  "open_chan = \<lparr>chan_closed = False, chan_buf = []\<rparr>"

text \<open>A \<^verbatim>\<open>range\<close> that yields the keys in the reverse of the order they are stored in.\<close>

definition range_reversed :: "go_map \<Rightarrow> string list \<Rightarrow> string list" where
  "range_reversed m ks = rev ks"

definition reply_of :: "string \<Rightarrow> string" where
  "reply_of hash = (if hash = fp_abc then ''1'' else ''2'')"

definition env_ok :: flush_env where
  "env_ok = \<lparr>range_order = range_reversed, exec_error = None, exec_reply = reply_of,
             exec_now = 1700000000000900123\<rparr>"

definition env_eof :: flush_env where
  "env_eof = env_ok\<lparr>exec_error := Some (TransportError ''EOF'')\<rparr>"

definition env_nil :: flush_env where
  "env_nil = env_ok\<lparr>exec_error := Some RedisNil\<rparr>"

text \<open>
  Two callers wait for \<^verbatim>\<open>HDel abc\<close> (handles 0 and 1), one for \<^verbatim>\<open>HDel a b c\<close> (handle 2).
\<close>

definition two_ops :: cache where
  "two_ops =
     \<lparr>storage = [(fp_abc, \<lparr>args = [''abc''], listeners = [0, 1], kind = HDel\<rparr>),
                 (fp_a_b_c, \<lparr>args = [''a'', ''b'', ''c''], listeners = [2], kind = HDel\<rparr>)],
      activeListeners = 3, storageThresholdSize = 100, storageThresholdTime = 1000000,
      runInterval = 50000, lastPipeline = 1700000000000000, logged = [], stopped = False,
      chans = [open_chan, open_chan, open_chan]\<rparr>"

definition waiting_one :: cache where
  "waiting_one =
     \<lparr>storage = [(fp_abc, \<lparr>args = [''abc''], listeners = [0], kind = HDel\<rparr>)],
      activeListeners = 1, storageThresholdSize = 100, storageThresholdTime = 1000000,
      runInterval = 50000, lastPipeline = 1700000000000000, logged = [], stopped = False,
      chans = [open_chan]\<rparr>"

definition tick_at :: "int \<Rightarrow> tick_env" where
  "tick_at now = \<lparr>tick_now = now, tick_flush = env_ok\<rparr>"

section \<open>Decimal conversion\<close>

lemma digit_char_of_char: "d < 10 \<Longrightarrow> (of_char (digit_char d) :: nat) = 48 + d"
  by (simp add: digit_char_def)

lemma parse_append:
  "parseUint_loop m (xs @ ys) n = (case parseUint_loop m xs n of Parsed k \<Rightarrow> parseUint_loop m ys k | e \<Rightarrow> e)"
  by (induction xs arbitrary: n) auto

lemma parse_format: "n \<le> m \<Longrightarrow> parseUint_loop m (format_nat n) 0 = Parsed n"
proof (induction n rule: format_nat.induct)
  case (1 n)
  show ?case
  proof (cases "n < 10")
    case True
    with 1(2) show ?thesis
      by (subst format_nat.simps) (simp add: digit_char_of_char)
  next
    case False
    have le: "n div 10 \<le> m" using 1(2) by linarith
    have "parseUint_loop m (format_nat (n div 10)) 0 = Parsed (n div 10)"
      using 1(1) [OF False le] .
    with False 1(2) show ?thesis
      by (subst format_nat.simps) (simp add: parse_append digit_char_of_char)
  qed
qed

lemma format_nat_nonempty: "format_nat n \<noteq> []"
  by (subst format_nat.simps) simp

lemma hd_format_nat: "hd (format_nat n) \<noteq> CHR ''-'' \<and> hd (format_nat n) \<noteq> CHR ''+''"
proof (induction n rule: format_nat.induct)
  case (1 n)
  show ?case
  proof (cases "n < 10")
    case True
    then have "(of_char (hd (format_nat n)) :: nat) = 48 + n"
      by (subst format_nat.simps) (simp add: digit_char_of_char)
    then show ?thesis by auto
  next
    case False
    then show ?thesis using 1 [OF False] format_nat_nonempty [of "n div 10"]
      by (subst (1 2) format_nat.simps) (simp add: hd_append)
  qed
qed


lemma Atoi_Itoa:
  assumes w: "0 < w" and lo: "- (2 ^ (w - 1)) \<le> i" and hi: "i < 2 ^ (w - 1)"
  shows "Atoi w (Itoa i) = i"
proof -
  have pw: "(2::nat) ^ w = 2 * 2 ^ (w - 1)"
    using w by (cases w) simp_all
  show ?thesis
  proof (cases "i < 0")
    case False
    then have un: "nat i < 2 ^ (w - 1)" using hi by (simp add: nat_less_iff)
    then have "nat i \<le> 2 ^ w - 1" using pw by linarith
    then have "parseUint_loop (2 ^ w - 1) (format_nat (nat i)) 0 = Parsed (nat i)"
      by (rule parse_format)
    with False un show ?thesis
      using hd_format_nat [of "nat i"] format_nat_nonempty [of "nat i"]
      by (simp add: Atoi_def Itoa_def ParseUint_def Let_def)
  next
    case True
    then have un: "nat (- i) \<le> 2 ^ (w - 1)" using lo by (simp add: nat_le_iff)
    moreover have "(1::nat) \<le> 2 ^ (w - 1)" by simp
    ultimately have "nat (- i) \<le> 2 ^ w - 1" using pw by linarith
    then have "parseUint_loop (2 ^ w - 1) (format_nat (nat (- i))) 0 = Parsed (nat (- i))"
      by (rule parse_format)
    with True un show ?thesis
      using format_nat_nonempty [of "nat (- i)"]
      by (simp add: Atoi_def Itoa_def ParseUint_def Let_def)
  qed
qed

lemma go_int_id: "- (2 ^ (w - 1)) \<le> i \<Longrightarrow> i < 2 ^ (w - 1) \<Longrightarrow> go_int w i = i"
  by (simp add: go_int_def signed_take_bit_int_eq_self)

section \<open>Delivery to the listeners of one operation\<close>

lemma chan_send_Sent:
  "chan_send r v h = Sent h' \<Longrightarrow>
     r < length h \<and> \<not> chan_closed (h ! r) \<and> chan_buf (h ! r) = []
     \<and> h' = h[r := (h ! r)\<lparr>chan_buf := [v]\<rparr>]"
  by (auto simp: chan_send_def resultChannelBufferSize_def split: if_splits)

lemma chan_send_ready:
  "r < length h \<Longrightarrow> chan_buf (h ! r) = [] \<Longrightarrow> \<not> chan_closed (h ! r) \<Longrightarrow>
     chan_send r v h = Sent (h[r := (h ! r)\<lparr>chan_buf := [v]\<rparr>])"
  by (simp add: chan_send_def resultChannelBufferSize_def)

lemma chan_send_not_blocked:
  "r < length h \<Longrightarrow> chan_buf (h ! r) = [] \<Longrightarrow> chan_send r v h \<noteq> SendBlocks"
  by (simp add: chan_send_def resultChannelBufferSize_def)

lemma deliver_frame:
  "deliver v rs c = Delivered c' \<or> deliver v rs c = Recovered c' \<Longrightarrow>
     storage c' = storage c \<and> logged c' = logged c \<and> lastPipeline c' = lastPipeline c
     \<and> stopped c' = stopped c \<and> length (chans c') = length (chans c)
     \<and> (\<forall>i. i \<notin> set rs \<longrightarrow> chans c' ! i = chans c ! i)"
proof (induction rs arbitrary: c)
  case Nil
  then show ?case by auto
next
  case (Cons r rs)
  show ?case
  proof (cases "chan_send r v (chans c)")
    case (Sent h)
    let ?c1 = "c\<lparr>chans := h, activeListeners := activeListeners c - 1\<rparr>"
    from Sent Cons.prems have "deliver v rs ?c1 = Delivered c' \<or> deliver v rs ?c1 = Recovered c'"
      by simp
    from Cons.IH [OF this] chan_send_Sent [OF Sent] show ?thesis
      by auto
  next
    case SendPanics
    with Cons.prems show ?thesis by auto
  next
    case SendBlocks
    with Cons.prems show ?thesis by auto
  qed
qed

lemma deliver_not_stuck:
  "distinct rs \<Longrightarrow> \<forall>r\<in>set rs. r < length (chans c) \<and> chan_buf (chans c ! r) = [] \<Longrightarrow>
     deliver v rs c \<noteq> Stuck"
proof (induction rs arbitrary: c)
  case Nil
  then show ?case by simp
next
  case (Cons r rs)
  show ?case
  proof (cases "chan_send r v (chans c)")
    case (Sent h)
    let ?c1 = "c\<lparr>chans := h, activeListeners := activeListeners c - 1\<rparr>"
    from chan_send_Sent [OF Sent] Cons.prems
    have "\<forall>r'\<in>set rs. r' < length (chans ?c1) \<and> chan_buf (chans ?c1 ! r') = []"
      by (auto simp: nth_list_update)
    with Cons.IH [of ?c1] Cons.prems(1) Sent show ?thesis by simp
  next
    case SendPanics
    then show ?thesis by simp
  next
    case SendBlocks
    with Cons.prems chan_send_not_blocked [of r "chans c" v] show ?thesis by simp
  qed
qed

lemma deliver_all:
  "distinct rs \<Longrightarrow>
   \<forall>r\<in>set rs. r < length (chans c) \<and> chan_buf (chans c ! r) = [] \<and> \<not> chan_closed (chans c ! r) \<Longrightarrow>
     \<exists>c'. deliver v rs c = Delivered c'
       \<and> (\<forall>r\<in>set rs. chan_buf (chans c' ! r) = [v])
       \<and> activeListeners c' = activeListeners c - of_nat (length rs)"
proof (induction rs arbitrary: c)
  case Nil
  then show ?case by simp
next
  case (Cons r rs)
  let ?h = "(chans c)[r := (chans c ! r)\<lparr>chan_buf := [v]\<rparr>]"
  let ?c1 = "c\<lparr>chans := ?h, activeListeners := activeListeners c - 1\<rparr>"
  from Cons.prems have sent: "chan_send r v (chans c) = Sent ?h"
    by (simp add: chan_send_ready)
  from Cons.prems
  have "\<forall>r'\<in>set rs. r' < length (chans ?c1) \<and> chan_buf (chans ?c1 ! r') = []
          \<and> \<not> chan_closed (chans ?c1 ! r')"
    by (auto simp: nth_list_update)
  with Cons.IH [of ?c1] Cons.prems(1)
  obtain c' where c': "deliver v rs ?c1 = Delivered c'"
      "\<forall>r\<in>set rs. chan_buf (chans c' ! r) = [v]"
      "activeListeners c' = activeListeners ?c1 - of_nat (length rs)"
    by auto
  from deliver_frame [of v rs ?c1 c'] c'(1) Cons.prems
  have "chans c' ! r = ?h ! r" by auto
  with Cons.prems have "chan_buf (chans c' ! r) = [v]" by simp
  with c' sent show ?case by simp
qed


lemma all_listeners_mem:
  "r \<in> set (all_listeners st) \<longleftrightarrow> (\<exists>hash ro. (hash, ro) \<in> set st \<and> r \<in> set (listeners ro))"
  by (auto simp: all_listeners_def)

lemma all_listeners_Cons:
  "all_listeners ((hash, ro) # st) = listeners ro @ all_listeners st"
  by (simp add: all_listeners_def)

lemma listeners_disjoint:
  "distinct (all_listeners st) \<Longrightarrow> (h, ro) \<in> set st \<Longrightarrow> (h', ro') \<in> set st \<Longrightarrow> h \<noteq> h' \<Longrightarrow>
     set (listeners ro) \<inter> set (listeners ro') = {}"
proof (induction st)
  case Nil
  then show ?case by simp
next
  case (Cons p st)
  obtain k x where p: "p = (k, x)" by (cases p)
  from Cons.prems(1) p have d: "distinct (all_listeners st)"
    and dj: "set (listeners x) \<inter> set (all_listeners st) = {}"
    by (auto simp: all_listeners_Cons)
  consider "(h, ro) = (k, x)" "(h', ro') \<in> set st" | "(h', ro') = (k, x)" "(h, ro) \<in> set st"
    | "(h, ro) \<in> set st" "(h', ro') \<in> set st"
    using Cons.prems p by auto
  then show ?case
  proof cases
    case 1
    then have "set (listeners ro') \<subseteq> set (all_listeners st)"
      unfolding all_listeners_mem subset_iff by auto
    with 1 dj show ?thesis by auto
  next
    case 2
    then have "set (listeners ro) \<subseteq> set (all_listeners st)"
      unfolding all_listeners_mem subset_iff by auto
    with 2 dj show ?thesis by auto
  next
    case 3
    then show ?thesis using Cons.IH [OF d] Cons.prems(4) by simp
  qed
qed

lemma distinct_listeners_entry:
  "distinct (all_listeners st) \<Longrightarrow> (h, ro) \<in> set st \<Longrightarrow> distinct (listeners ro)"
  by (induction st) (auto simp: all_listeners_Cons)

lemma distinct_all_listeners_filter:
  "distinct (all_listeners st) \<Longrightarrow> distinct (all_listeners (filter P st))"
proof (induction st)
  case Nil
  then show ?case by simp
next
  case (Cons p st)
  obtain k x where p: "p = (k, x)" by (cases p)
  have sub: "set (all_listeners (filter P st)) \<subseteq> set (all_listeners st)"
    unfolding all_listeners_mem subset_iff by auto
  from Cons p sub show ?case
    by (auto simp: all_listeners_Cons)
qed

lemma delete_filter: "AList.delete k al = filter (\<lambda>p. fst p \<noteq> k) al"
  by (induction al) auto

lemma sendResult_missing:
  "map_of (storage c) h = None \<Longrightarrow>
     sendResult h v c = Some (c\<lparr>logged := logged c @ [LogError (Wrapped ErrHashNotFound h)]\<rparr>)"
  by (simp add: sendResult_def)

lemma sendResult_entry:
  assumes look: "map_of (storage c) h = Some ro"
    and dist: "distinct (listeners ro)"
    and room: "\<forall>r\<in>set (listeners ro). r < length (chans c) \<and> chan_buf (chans c ! r) = []"
  shows "\<exists>c'. sendResult h v c = Some c'
      \<and> storage c' = AList.delete h (storage c)
      \<and> length (chans c') = length (chans c)
      \<and> lastPipeline c' = lastPipeline c
      \<and> (\<forall>i. i \<notin> set (listeners ro) \<longrightarrow> chans c' ! i = chans c ! i)
      \<and> ((\<forall>r\<in>set (listeners ro). \<not> chan_closed (chans c ! r)) \<longrightarrow>
           (\<forall>r\<in>set (listeners ro). chan_buf (chans c' ! r) = [v])
           \<and> activeListeners c' = activeListeners c - of_nat (length (listeners ro))
           \<and> logged c' = logged c)"
proof -
  let ?c0 = "c\<lparr>storage := AList.delete h (storage c)\<rparr>"
  from room have room0: "\<forall>r\<in>set (listeners ro). r < length (chans ?c0) \<and> chan_buf (chans ?c0 ! r) = []"
    by simp
  have ns: "deliver v (listeners ro) ?c0 \<noteq> Stuck"
    using deliver_not_stuck [OF dist room0] .
  show ?thesis
  proof (cases "\<forall>r\<in>set (listeners ro). \<not> chan_closed (chans c ! r)")
    case True
    with room have "\<forall>r\<in>set (listeners ro). r < length (chans ?c0) \<and> chan_buf (chans ?c0 ! r) = []
        \<and> \<not> chan_closed (chans ?c0 ! r)"
      by simp
    from deliver_all [OF dist this, of v]
    obtain c' where c': "deliver v (listeners ro) ?c0 = Delivered c'"
      "\<forall>r\<in>set (listeners ro). chan_buf (chans c' ! r) = [v]"
      "activeListeners c' = activeListeners ?c0 - of_nat (length (listeners ro))"
      by blast
    from deliver_frame [of v "listeners ro" ?c0 c'] c'(1)
    have fr: "storage c' = storage ?c0" "logged c' = logged ?c0" "lastPipeline c' = lastPipeline ?c0"
      "length (chans c') = length (chans ?c0)"
      "\<forall>i. i \<notin> set (listeners ro) \<longrightarrow> chans c' ! i = chans ?c0 ! i"
      by auto
    have "sendResult h v c = Some c'"
      using look c'(1) by (simp add: sendResult_def)
    with c' fr show ?thesis by simp
  next
    case False
    show ?thesis
    proof (cases "deliver v (listeners ro) ?c0")
      case (Delivered c')
      from deliver_frame [of v "listeners ro" ?c0 c'] Delivered
      have fr: "storage c' = storage ?c0" "lastPipeline c' = lastPipeline ?c0"
        "length (chans c') = length (chans ?c0)"
        "\<forall>i. i \<notin> set (listeners ro) \<longrightarrow> chans c' ! i = chans ?c0 ! i"
        by auto
      have "sendResult h v c = Some c'"
        using look Delivered by (simp add: sendResult_def)
      with fr False show ?thesis by auto
    next
      case (Recovered c')
      from deliver_frame [of v "listeners ro" ?c0 c'] Recovered
      have fr: "storage c' = storage ?c0" "lastPipeline c' = lastPipeline ?c0"
        "length (chans c') = length (chans ?c0)"
        "\<forall>i. i \<notin> set (listeners ro) \<longrightarrow> chans c' ! i = chans ?c0 ! i"
        by auto
      have "sendResult h v c = Some (c'\<lparr>logged := logged c' @ [LogRecovered ''send on closed channel'']\<rparr>)"
        using look Recovered by (simp add: sendResult_def)
      with fr False show ?thesis by auto
    next
      case Stuck
      with ns show ?thesis by simp
    qed
  qed
qed


lemma cache_wf_entry:
  assumes "cache_wf c" "(h, ro) \<in> set (storage c)"
  shows "map_of (storage c) h = Some ro" "distinct (listeners ro)"
    "\<forall>r\<in>set (listeners ro). r < length (chans c) \<and> chan_buf (chans c ! r) = []"
proof -
  from assms show "map_of (storage c) h = Some ro"
    by (simp add: cache_wf_def)
  from assms show "distinct (listeners ro)"
    by (auto simp: cache_wf_def intro: distinct_listeners_entry)
  from assms(2) have "set (listeners ro) \<subseteq> set (all_listeners (storage c))"
    unfolding all_listeners_mem subset_iff by auto
  with assms(1) show "\<forall>r\<in>set (listeners ro). r < length (chans c) \<and> chan_buf (chans c ! r) = []"
    by (auto simp: cache_wf_def list_all_iff)
qed

lemma cache_wf_after_entry:
  assumes wf: "cache_wf c" and mem: "(h, ro) \<in> set (storage c)"
    and st: "storage c' = AList.delete h (storage c)"
    and len: "length (chans c') = length (chans c)"
    and fr: "\<forall>i. i \<notin> set (listeners ro) \<longrightarrow> chans c' ! i = chans c ! i"
  shows "cache_wf c'"
    and "\<forall>h' ro'. (h', ro') \<in> set (storage c') \<longrightarrow>
           (h', ro') \<in> set (storage c) \<and> h' \<noteq> h \<and> (\<forall>r\<in>set (listeners ro'). chans c' ! r = chans c ! r)"
proof -
  have other: "(h', ro') \<in> set (storage c) \<and> h' \<noteq> h \<and> (\<forall>r\<in>set (listeners ro'). chans c' ! r = chans c ! r)"
    if "(h', ro') \<in> set (storage c')" for h' ro'
  proof -
    from that st have m: "(h', ro') \<in> set (storage c)" and ne: "h' \<noteq> h"
      by (auto simp: delete_filter)
    from wf have "distinct (all_listeners (storage c))" by (simp add: cache_wf_def)
    from listeners_disjoint [OF this mem m] ne
    have "set (listeners ro) \<inter> set (listeners ro') = {}" by auto
    with fr have "\<forall>r\<in>set (listeners ro'). chans c' ! r = chans c ! r" by auto
    with m ne show ?thesis by simp
  qed
  then show "\<forall>h' ro'. (h', ro') \<in> set (storage c') \<longrightarrow>
           (h', ro') \<in> set (storage c) \<and> h' \<noteq> h \<and> (\<forall>r\<in>set (listeners ro'). chans c' ! r = chans c ! r)"
    by blast
  have d1: "distinct (map fst (storage c'))"
    using wf st by (simp add: cache_wf_def distinct_delete)
  have d2: "distinct (all_listeners (storage c'))"
    using wf st by (simp add: cache_wf_def delete_filter distinct_all_listeners_filter)
  have "r < length (chans c') \<and> chan_buf (chans c' ! r) = []" if "r \<in> set (all_listeners (storage c'))" for r
  proof -
    from that obtain h' ro' where m': "(h', ro') \<in> set (storage c')" and r: "r \<in> set (listeners ro')"
      unfolding all_listeners_mem by blast
    from other [OF m'] r have "(h', ro') \<in> set (storage c)" "chans c' ! r = chans c ! r" by auto
    with cache_wf_entry(3) [OF wf, of h' ro'] r len show ?thesis by simp
  qed
  with d1 d2 show "cache_wf c'"
    by (simp add: cache_wf_def list_all_iff)
qed

lemma send_all_delivers:
  assumes "cache_wf c" "distinct (map fst ds)"
  shows "\<exists>c'. send_all ds c = Some c'
      \<and> length (chans c') = length (chans c)
      \<and> (\<forall>i. i \<notin> listeners_of (fst ` set ds) (storage c) \<longrightarrow> chans c' ! i = chans c ! i)
      \<and> (\<forall>h v ro. (h, v) \<in> set ds \<and> (h, ro) \<in> set (storage c)
             \<and> (\<forall>r\<in>set (listeners ro). \<not> chan_closed (chans c ! r))
           \<longrightarrow> (\<forall>r\<in>set (listeners ro). chan_buf (chans c' ! r) = [v]))"
  using assms
proof (induction ds arbitrary: c)
  case Nil
  then show ?case by simp
next
  case (Cons d ds)
  obtain h v where d: "d = (h, v)" by (cases d)
  from Cons.prems(2) d have hnotin: "h \<notin> fst ` set ds" and dds: "distinct (map fst ds)"
    by auto
  show ?case
  proof (cases "map_of (storage c) h")
    case None
    let ?c1 = "c\<lparr>logged := logged c @ [LogError (Wrapped ErrHashNotFound h)]\<rparr>"
    have s1: "sendResult h v c = Some ?c1" using None by (rule sendResult_missing)
    have wf1: "cache_wf ?c1" using Cons.prems(1) by (simp add: cache_wf_def)
    from Cons.IH [OF wf1 dds] obtain c' where c': "send_all ds ?c1 = Some c'"
      "length (chans c') = length (chans ?c1)"
      "\<forall>i. i \<notin> listeners_of (fst ` set ds) (storage ?c1) \<longrightarrow> chans c' ! i = chans ?c1 ! i"
      "\<forall>h v ro. (h, v) \<in> set ds \<and> (h, ro) \<in> set (storage ?c1)
             \<and> (\<forall>r\<in>set (listeners ro). \<not> chan_closed (chans ?c1 ! r))
           \<longrightarrow> (\<forall>r\<in>set (listeners ro). chan_buf (chans c' ! r) = [v])"
      by blast
    have nomem: "\<And>ro. (h, ro) \<notin> set (storage c)"
      using None by (auto simp: map_of_eq_None_iff image_iff)
    have sub: "listeners_of (fst ` set ds) (storage c) \<subseteq> listeners_of (fst ` set (d # ds)) (storage c)"
      by (auto simp: listeners_of_def)
    have "send_all (d # ds) c = Some c'" using d s1 c'(1) by simp
    moreover have "length (chans c') = length (chans c)" using c'(2) by simp
    moreover have "\<forall>i. i \<notin> listeners_of (fst ` set (d # ds)) (storage c) \<longrightarrow> chans c' ! i = chans c ! i"
      using c'(3) sub by auto
    moreover have "\<forall>h' v' ro. (h', v') \<in> set (d # ds) \<and> (h', ro) \<in> set (storage c)
             \<and> (\<forall>r\<in>set (listeners ro). \<not> chan_closed (chans c ! r))
           \<longrightarrow> (\<forall>r\<in>set (listeners ro). chan_buf (chans c' ! r) = [v'])"
      using c'(4) nomem d by auto
    ultimately show ?thesis by blast
  next
    case (Some ro)
    then have mem: "(h, ro) \<in> set (storage c)" by (rule map_of_SomeD)
    note e = cache_wf_entry [OF Cons.prems(1) mem]
    from sendResult_entry [OF Some e(2) e(3), of v]
    obtain c1 where c1: "sendResult h v c = Some c1"
      "storage c1 = AList.delete h (storage c)"
      "length (chans c1) = length (chans c)"
      "\<forall>i. i \<notin> set (listeners ro) \<longrightarrow> chans c1 ! i = chans c ! i"
      "(\<forall>r\<in>set (listeners ro). \<not> chan_closed (chans c ! r)) \<longrightarrow>
           (\<forall>r\<in>set (listeners ro). chan_buf (chans c1 ! r) = [v])"
      by blast
    note a = cache_wf_after_entry [OF Cons.prems(1) mem c1(2) c1(3) c1(4)]
    from Cons.IH [OF a(1) dds] obtain c' where c': "send_all ds c1 = Some c'"
      "length (chans c') = length (chans c1)"
      "\<forall>i. i \<notin> listeners_of (fst ` set ds) (storage c1) \<longrightarrow> chans c' ! i = chans c1 ! i"
      "\<forall>h v ro. (h, v) \<in> set ds \<and> (h, ro) \<in> set (storage c1)
             \<and> (\<forall>r\<in>set (listeners ro). \<not> chan_closed (chans c1 ! r))
           \<longrightarrow> (\<forall>r\<in>set (listeners ro). chan_buf (chans c' ! r) = [v])"
      by blast
    have sub: "listeners_of (fst ` set ds) (storage c1) \<subseteq> listeners_of (fst ` set (d # ds)) (storage c)"
      using a(2) by (fastforce simp: listeners_of_def)
    have own: "set (listeners ro) \<subseteq> listeners_of (fst ` set (d # ds)) (storage c)"
      using mem d by (auto simp: listeners_of_def)
    have later: "set (listeners ro) \<inter> listeners_of (fst ` set ds) (storage c1) = {}"
    proof -
      have False if "r \<in> set (listeners ro)" "r \<in> listeners_of (fst ` set ds) (storage c1)" for r
      proof -
        from that(2) obtain h' ro' where m': "(h', ro') \<in> set (storage c1)" and r': "r \<in> set (listeners ro')"
          by (auto simp: listeners_of_def)
        from a(2) m' have "(h', ro') \<in> set (storage c)" "h' \<noteq> h" by auto
        with listeners_disjoint [OF _ mem this(1)] Cons.prems(1) that(1) r'
        show False by (auto simp: cache_wf_def)
      qed
      then show ?thesis by blast
    qed
    have "send_all (d # ds) c = Some c'" using d c1(1) c'(1) by simp
    moreover have "length (chans c') = length (chans c)" using c'(2) c1(3) by simp
    moreover have "\<forall>i. i \<notin> listeners_of (fst ` set (d # ds)) (storage c) \<longrightarrow> chans c' ! i = chans c ! i"
    proof (intro allI impI)
      fix i
      assume "i \<notin> listeners_of (fst ` set (d # ds)) (storage c)"
      with sub own have "i \<notin> listeners_of (fst ` set ds) (storage c1)" "i \<notin> set (listeners ro)"
        by blast+
      with c'(3) c1(4) show "chans c' ! i = chans c ! i" by simp
    qed
    moreover have "\<forall>r\<in>set (listeners ro2). chan_buf (chans c' ! r) = [v']"
      if t: "(h', v') \<in> set (d # ds)" "(h', ro2) \<in> set (storage c)"
        "\<forall>r\<in>set (listeners ro2). \<not> chan_closed (chans c ! r)" for h' v' ro2
    proof (cases "h' = h")
      case True
      with t(1) d hnotin have v: "v' = v" by (auto simp: image_iff)
      from True t(2) cache_wf_entry(1) [OF Cons.prems(1)] Some have ro2: "ro2 = ro" by fastforce
      from c1(5) t(3) ro2 have b: "\<forall>r\<in>set (listeners ro). chan_buf (chans c1 ! r) = [v]" by simp
      from later c'(3) have "\<forall>r\<in>set (listeners ro). chans c' ! r = chans c1 ! r" by auto
      with b v ro2 show ?thesis by simp
    next
      case False
      with t(1) d have inds: "(h', v') \<in> set ds" by auto
      from Cons.prems(1) have dk: "distinct (all_listeners (storage c))" by (simp add: cache_wf_def)
      from listeners_disjoint [OF dk mem t(2)] False
      have dj: "set (listeners ro) \<inter> set (listeners ro2) = {}" by auto
      with c1(4) have same: "\<forall>r\<in>set (listeners ro2). chans c1 ! r = chans c ! r" by auto
      from t(2) False c1(2) have m1: "(h', ro2) \<in> set (storage c1)"
        by (auto simp: delete_filter)
      from same t(3) have "\<forall>r\<in>set (listeners ro2). \<not> chan_closed (chans c1 ! r)" by simp
      with c'(4) inds m1 show ?thesis by blast
    qed
    ultimately show ?thesis by blast
  qed
qed

section \<open>Snapshot, pipeline and deliveries\<close>

lemma map_filter_all_Some:
  "\<forall>x\<in>set xs. f x \<noteq> None \<Longrightarrow> List.map_filter f xs = map (\<lambda>x. the (f x)) xs"
  by (induction xs) (auto simp: List.map_filter_simps)

lemma go_range_mset:
  assumes d: "distinct (map fst al)" and p: "mset (ord (map fst al)) = mset (map fst al)"
  shows "mset (go_range ord al) = mset al"
proof -
  let ?g = "\<lambda>k. (k, the (map_of al k))"
  from p have s: "set (ord (map fst al)) = set (map fst al)" by (rule mset_eq_setD)
  then have "\<forall>k\<in>set (ord (map fst al)). map_option (Pair k) (map_of al k) \<noteq> None"
    by (auto simp: map_of_eq_None_iff)
  then have "go_range ord al = map (\<lambda>k. the (map_option (Pair k) (map_of al k))) (ord (map fst al))"
    unfolding go_range_def by (rule map_filter_all_Some)
  also have "\<dots> = map ?g (ord (map fst al))"
    using s by (intro map_cong refl) (auto simp: map_of_eq_None_iff option.map_sel)
  finally have "mset (go_range ord al) = image_mset ?g (mset (ord (map fst al)))" by simp
  also have "\<dots> = image_mset ?g (mset (map fst al))" using p by (rule arg_cong)
  also have "\<dots> = mset (map ?g (map fst al))" by (rule mset_map [symmetric])
  also have "map ?g (map fst al) = map (\<lambda>p. ?g (fst p)) al" by (simp add: comp_def)
  also have "\<dots> = al"
    using d by (intro map_idI) auto
  finally show ?thesis .
qed

lemma queue_all_Some:
  "queue_all w xs = Some pipe \<Longrightarrow> pipe = map (\<lambda>(hash, ro). (hash, the (queue_cmd w ro))) xs"
  by (induction xs arbitrary: pipe) (auto split: option.splits)

lemma queue_all_ok:
  "\<forall>(hash, ro)\<in>set xs. queue_cmd w ro \<noteq> None \<Longrightarrow> \<exists>pipe. queue_all w xs = Some pipe"
  by (induction xs) (auto split: option.splits)

lemma cmds_of_sum:
  "(\<Sum>t\<leftarrow>[IntCmd, SliceCmd, StringCmd, MapStringStringCmd, StringSliceCmd, BoolCmd]. mset (cmds_of t env pipe))
     = mset (map (cmd_of env) pipe)"
proof (induction pipe)
  case Nil
  then show ?case by (simp add: cmds_of_def)
next
  case (Cons q pipe)
  obtain h t call where q: "q = (h, t, call)" by (cases q)
  have "\<And>t'. mset (cmds_of t' env (q # pipe))
       = (if t = t' then {#cmd_of env q#} else {#}) + mset (cmds_of t' env pipe)"
    by (auto simp: cmds_of_def q cmd_of_def)
  with Cons show ?case
    by (cases t) (simp_all add: q)
qed

lemma deliveries_mset:
  assumes d: "distinct (map fst pipe)"
    and p: "\<forall>m ks. mset (range_order env m ks) = mset ks"
  shows "mset (deliveries env pipe) = mset (map (cmd_of env) pipe)"
proof -
  have g: "mset (go_range (range_order env (CmdMap t)) (cmds_of t env pipe)) = mset (cmds_of t env pipe)" for t
  proof (rule go_range_mset)
    have "map fst (cmds_of t env pipe) = map fst (filter (\<lambda>(hash, t', call). t' = t) pipe)"
      by (auto simp: cmds_of_def)
    with d show "distinct (map fst (cmds_of t env pipe))"
      by (simp add: distinct_map_filter)
    from p show "mset (range_order env (CmdMap t) (map fst (cmds_of t env pipe))) = mset (map fst (cmds_of t env pipe))"
      by simp
  qed
  show ?thesis
    unfolding deliveries_def mset_concat map_map comp_def g
    by (rule cmds_of_sum)
qed

lemma filter_key_unique:
  "distinct (map fst xs) \<Longrightarrow> (k, v) \<in> set xs \<Longrightarrow> filter (\<lambda>q. fst q = k) xs = [(k, v)]"
proof (induction xs)
  case Nil
  then show ?case by simp
next
  case (Cons x xs)
  show ?case
  proof (cases "fst x = k")
    case True
    with Cons.prems have "x = (k, v)" by (cases x) (auto simp: image_iff)
    moreover from True Cons.prems have "filter (\<lambda>q. fst q = k) xs = []"
      by (auto simp: filter_empty_conv image_iff)
    ultimately show ?thesis by simp
  next
    case False
    with Cons show ?thesis by auto
  qed
qed

lemma snapshot_facts:
  assumes d: "distinct (map fst al)" and p: "\<forall>m ks. mset (range_order env m ks) = mset ks"
  shows "set (go_range (range_order env m) al) = set al"
    and "distinct (map fst (go_range (range_order env m) al))"
proof -
  from p have "mset (range_order env m (map fst al)) = mset (map fst al)" by simp
  with d have m: "mset (go_range (range_order env m) al) = mset al" by (rule go_range_mset)
  then show "set (go_range (range_order env m) al) = set al" by (rule mset_eq_setD)
  from m have "mset (map fst (go_range (range_order env m) al)) = mset (map fst al)"
    by (metis mset_map)
  from mset_eq_imp_distinct_iff [OF this] d
  show "distinct (map fst (go_range (range_order env m) al))" by simp
qed

lemma fst_cmd_of: "fst (cmd_of env q) = fst q"
  by (cases q) (simp add: cmd_of_def)

section \<open>A flush as a whole\<close>

text \<open>
  The flush of a well-formed cache, for every order of the \<^verbatim>\<open>range\<close> loops: every entry's call
  stands in the pipeline once; unless the round trip fails wholesale the flush completes, and
  the listeners of an entry whose handles are all open hold the entry's command object.
\<close>

lemma sendResult_lastPipeline:
  "sendResult h v c = Some c' \<Longrightarrow> lastPipeline c' = lastPipeline c"
proof (cases "map_of (storage c) h")
  case None
  assume "sendResult h v c = Some c'"
  with None show ?thesis by (auto simp: sendResult_def)
next
  case (Some ro)
  assume r: "sendResult h v c = Some c'"
  let ?c0 = "c\<lparr>storage := AList.delete h (storage c)\<rparr>"
  show ?thesis
  proof (cases "deliver v (listeners ro) ?c0")
    case (Delivered c1)
    with deliver_frame [of v "listeners ro" ?c0 c1] r Some show ?thesis
      by (auto simp: sendResult_def)
  next
    case (Recovered c1)
    with deliver_frame [of v "listeners ro" ?c0 c1] r Some show ?thesis
      by (auto simp: sendResult_def)
  next
    case Stuck
    with r Some show ?thesis by (simp add: sendResult_def)
  qed
qed

lemma send_all_lastPipeline:
  "send_all ds c = Some c' \<Longrightarrow> lastPipeline c' = lastPipeline c"
proof (induction ds arbitrary: c)
  case Nil
  then show ?case by simp
next
  case (Cons d ds)
  obtain h v where d: "d = (h, v)" by (cases d)
  from Cons.prems d obtain c1 where c1: "sendResult h v c = Some c1" "send_all ds c1 = Some c'"
    by (auto split: option.splits)
  from Cons.IH [OF c1(2)] sendResult_lastPipeline [OF c1(1)] show ?case by simp
qed

lemma queue_all_shaped:
  "queue_all w xs = Some pipe \<Longrightarrow> \<forall>(hash, ro)\<in>set xs. queue_cmd w ro \<noteq> None"
  by (induction xs arbitrary: pipe) (auto split: option.splits)

lemma runPipeline_lastPipeline:
  assumes r: "runPipeline intSize env c = (Completed, pipe, c')"
  shows "lastPipeline c' = exec_now env div 1000"
proof (cases "queue_all intSize (go_range (range_order env StorageMap) (storage c))")
  case None
  with r show ?thesis by (simp add: runPipeline_def)
next
  case (Some p)
  show ?thesis
  proof (cases "bulk_failure (exec_error env)")
    case True
    with Some r show ?thesis by (simp add: runPipeline_def)
  next
    case False
    show ?thesis
    proof (cases "send_all (deliveries env p) (c\<lparr>lastPipeline := exec_now env div 1000\<rparr>)")
      case None
      with Some False r show ?thesis by (simp add: runPipeline_def)
    next
      case (Some c'')
      with \<open>queue_all intSize _ = Some p\<close> False r have "c'' = c'" by (simp add: runPipeline_def)
      with send_all_lastPipeline [OF Some] show ?thesis by simp
    qed
  qed
qed

lemma flush_delivers:
  assumes wf: "cache_wf c"
    and perm: "\<forall>m ks. mset (range_order env m ks) = mset ks"
    and shaped: "\<forall>(hash, ro)\<in>set (storage c). queue_cmd intSize ro \<noteq> None"
  shows "\<exists>outcome pipe c'. runPipeline intSize env c = (outcome, pipe, c')
      \<and> queue_all intSize (go_range (range_order env StorageMap) (storage c)) = Some pipe
      \<and> (\<not> bulk_failure (exec_error env) \<longrightarrow> outcome = Completed)
      \<and> (\<forall>h ro. (h, ro) \<in> set (storage c) \<longrightarrow>
            (\<exists>t call. queue_cmd intSize ro = Some (t, call)
               \<and> filter (\<lambda>q. fst q = h) pipe = [(h, t, call)]
               \<and> (\<not> bulk_failure (exec_error env) \<longrightarrow>
                    (\<forall>r\<in>set (listeners ro). \<not> chan_closed (chans c ! r)) \<longrightarrow>
                    (\<forall>r\<in>set (listeners ro).
                       chan_buf (chans c' ! r) = [RedisCmd t call (exec_reply env h)]))))"
proof -
  let ?S = "go_range (range_order env StorageMap) (storage c)"
  from wf have dk: "distinct (map fst (storage c))" by (simp add: cache_wf_def)
  note sf = snapshot_facts [OF dk perm, of StorageMap]
  from shaped sf(1) have "\<forall>(hash, ro)\<in>set ?S. queue_cmd intSize ro \<noteq> None" by simp
  from queue_all_ok [OF this] obtain pipe where q: "queue_all intSize ?S = Some pipe" by blast
  from queue_all_Some [OF q]
  have pipe: "pipe = map (\<lambda>(hash, ro). (hash, the (queue_cmd intSize ro))) ?S" .
  then have "map fst pipe = map fst ?S" by (simp add: case_prod_beta comp_def)
  with sf(2) have dp: "distinct (map fst pipe)" by simp
  have queued: "\<exists>t call. queue_cmd intSize ro = Some (t, call) \<and> (h, t, call) \<in> set pipe
      \<and> filter (\<lambda>q. fst q = h) pipe = [(h, t, call)]"
    if entry: "(h, ro) \<in> set (storage c)" for h ro
  proof -
    from shaped entry obtain t call where tc: "queue_cmd intSize ro = Some (t, call)"
      by (cases "queue_cmd intSize ro") auto
    from entry sf(1) have "(h, ro) \<in> set ?S" by simp
    then have "(\<lambda>(hash, ro). (hash, the (queue_cmd intSize ro))) (h, ro) \<in> set pipe"
      unfolding pipe set_map by (rule imageI)
    with tc have inp: "(h, t, call) \<in> set pipe" by simp
    from filter_key_unique [OF dp inp] tc inp show ?thesis by blast
  qed
  show ?thesis
  proof (cases "bulk_failure (exec_error env)")
    case True
    let ?c' = "c\<lparr>logged := logged c @ [LogError (the (exec_error env))]\<rparr>"
    from True have run: "runPipeline intSize env c = (BulkFailed, pipe, ?c')"
      using q by (simp add: runPipeline_def)
    have each: "\<forall>h ro. (h, ro) \<in> set (storage c) \<longrightarrow>
            (\<exists>t call. queue_cmd intSize ro = Some (t, call)
               \<and> filter (\<lambda>q. fst q = h) pipe = [(h, t, call)]
               \<and> (\<not> bulk_failure (exec_error env) \<longrightarrow>
                    (\<forall>r\<in>set (listeners ro). \<not> chan_closed (chans c ! r)) \<longrightarrow>
                    (\<forall>r\<in>set (listeners ro).
                       chan_buf (chans ?c' ! r) = [RedisCmd t call (exec_reply env h)])))"
    proof (intro allI impI)
      fix h ro
      assume "(h, ro) \<in> set (storage c)"
      from queued [OF this] obtain t call where "queue_cmd intSize ro = Some (t, call)"
        "filter (\<lambda>q. fst q = h) pipe = [(h, t, call)]"
        by blast
      with True show "\<exists>t call. queue_cmd intSize ro = Some (t, call)
               \<and> filter (\<lambda>q. fst q = h) pipe = [(h, t, call)]
               \<and> (\<not> bulk_failure (exec_error env) \<longrightarrow>
                    (\<forall>r\<in>set (listeners ro). \<not> chan_closed (chans c ! r)) \<longrightarrow>
                    (\<forall>r\<in>set (listeners ro).
                       chan_buf (chans ?c' ! r) = [RedisCmd t call (exec_reply env h)]))"
        by simp
    qed
    from True have "\<not> bulk_failure (exec_error env) \<longrightarrow> BulkFailed = Completed" by simp
    with run q each show ?thesis
      by - (rule exI [of _ BulkFailed], rule exI [of _ pipe], rule exI [of _ ?c'], intro conjI)
  next
    case False
    let ?D = "deliveries env pipe"
    from deliveries_mset [OF dp perm] have md: "mset ?D = mset (map (cmd_of env) pipe)" .
    then have sD: "set ?D = set (map (cmd_of env) pipe)" by (rule mset_eq_setD)
    from md have "mset (map fst ?D) = mset (map fst (map (cmd_of env) pipe))" by (metis mset_map)
    also have "map fst (map (cmd_of env) pipe) = map fst pipe" by (simp add: fst_cmd_of comp_def)
    finally have dD: "distinct (map fst ?D)" using dp mset_eq_imp_distinct_iff by blast
    let ?c0 = "c\<lparr>lastPipeline := exec_now env div 1000\<rparr>"
    from wf have wf0: "cache_wf ?c0" by (simp add: cache_wf_def)
    from send_all_delivers [OF wf0 dD]
    obtain c' where c': "send_all ?D ?c0 = Some c'"
      "\<forall>h v ro. (h, v) \<in> set ?D \<and> (h, ro) \<in> set (storage ?c0)
               \<and> (\<forall>r\<in>set (listeners ro). \<not> chan_closed (chans ?c0 ! r))
             \<longrightarrow> (\<forall>r\<in>set (listeners ro). chan_buf (chans c' ! r) = [v])"
      by blast
    have run: "runPipeline intSize env c = (Completed, pipe, c')"
      using q False c'(1) by (simp add: runPipeline_def)
    have each: "\<forall>h ro. (h, ro) \<in> set (storage c) \<longrightarrow>
            (\<exists>t call. queue_cmd intSize ro = Some (t, call)
               \<and> filter (\<lambda>q. fst q = h) pipe = [(h, t, call)]
               \<and> (\<not> bulk_failure (exec_error env) \<longrightarrow>
                    (\<forall>r\<in>set (listeners ro). \<not> chan_closed (chans c ! r)) \<longrightarrow>
                    (\<forall>r\<in>set (listeners ro).
                       chan_buf (chans c' ! r) = [RedisCmd t call (exec_reply env h)])))"
    proof (intro allI impI)
      fix h ro
      assume entry: "(h, ro) \<in> set (storage c)"
      from queued [OF entry] obtain t call where tc: "queue_cmd intSize ro = Some (t, call)"
        and inp: "(h, t, call) \<in> set pipe"
        and once: "filter (\<lambda>q. fst q = h) pipe = [(h, t, call)]"
        by blast
      from inp sD have inD: "(h, RedisCmd t call (exec_reply env h)) \<in> set ?D"
        by (force simp: cmd_of_def image_iff)
      from c'(2) inD entry
      have "(\<forall>r\<in>set (listeners ro). \<not> chan_closed (chans c ! r)) \<longrightarrow>
          (\<forall>r\<in>set (listeners ro). chan_buf (chans c' ! r) = [RedisCmd t call (exec_reply env h)])"
        by simp
      with tc once show "\<exists>t call. queue_cmd intSize ro = Some (t, call)
               \<and> filter (\<lambda>q. fst q = h) pipe = [(h, t, call)]
               \<and> (\<not> bulk_failure (exec_error env) \<longrightarrow>
                    (\<forall>r\<in>set (listeners ro). \<not> chan_closed (chans c ! r)) \<longrightarrow>
                    (\<forall>r\<in>set (listeners ro).
                       chan_buf (chans c' ! r) = [RedisCmd t call (exec_reply env h)]))"
        by simp
    qed
    have "\<not> bulk_failure (exec_error env) \<longrightarrow> Completed = Completed" by simp
    with run q each show ?thesis
      by - (rule exI [of _ Completed], rule exI [of _ pipe], rule exI [of _ c'], intro conjI)
  qed
qed

section \<open>What enqueue and a flush maintain\<close>

text \<open>
  A new cache is well formed and its counter agrees with its storage; \<^verbatim>\<open>enqueue\<close> keeps both,
  and so does a flush, whatever its outcome, as long as no waiting handle has been closed.
\<close>

lemma all_listeners_append:
  "all_listeners (st @ st') = all_listeners st @ all_listeners st'"
  by (simp add: all_listeners_def)

lemma all_listeners_update:
  "map_of st h = Some ro \<Longrightarrow>
     mset (all_listeners (AList.update h (ro\<lparr>listeners := listeners ro @ [r]\<rparr>) st))
       = mset (all_listeners st) + {#r#}"
proof (induction st)
  case Nil
  then show ?case by simp
next
  case (Cons p st)
  obtain k x where p: "p = (k, x)" by (cases p)
  show ?case
  proof (cases "k = h")
    case True
    with Cons.prems p show ?thesis by (simp add: all_listeners_Cons)
  next
    case False
    with Cons p show ?thesis by (simp add: all_listeners_Cons)
  qed
qed

lemma newCache_wf: "cache_wf (newCache now ttl interval maxSize)"
  by (simp add: newCache_def cache_wf_def all_listeners_def)

lemma newCache_counter: "counter_inv (newCache now ttl interval maxSize)"
  by (simp add: newCache_def counter_inv_def all_listeners_def)

lemma enqueue_preserves_wf:
  assumes wf: "cache_wf c"
  shows "cache_wf (snd (enqueue sha256 k as c))"
proof -
  let ?r = "length (chans c)"
  let ?h = "hashStringSlice sha256 k as"
  from wf have dk: "distinct (map fst (storage c))" and dl: "distinct (all_listeners (storage c))"
    and old: "\<forall>r\<in>set (all_listeners (storage c)). r < ?r \<and> chan_buf (chans c ! r) = []"
    by (simp_all add: cache_wf_def list_all_iff)
  from old have fresh: "?r \<notin> set (all_listeners (storage c))" by auto
  have keep: "\<forall>r\<in>set (all_listeners (storage c)).
      r < length (chans c @ [x]) \<and> chan_buf ((chans c @ [x]) ! r) = []" for x
    using old by (auto simp: nth_append)
  show ?thesis
  proof (cases "stopped c")
    case True
    then show ?thesis
      using dk dl old
      by (auto simp: enqueue_def make_chan_def close_chan_def cache_wf_def list_all_iff nth_append)
  next
    case False
    show ?thesis
    proof (cases "map_of (storage c) ?h")
      case None
      then have "?h \<notin> fst ` set (storage c)" by (simp add: map_of_eq_None_iff)
      with False None dk dl fresh keep [of "\<lparr>chan_closed = False, chan_buf = []\<rparr>"] show ?thesis
        by (simp add: enqueue_def make_chan_def cache_wf_def list_all_iff all_listeners_append
            all_listeners_Cons all_listeners_def [of "[]"] nth_append)
    next
      case (Some ro)
      let ?st = "AList.update ?h (ro\<lparr>listeners := listeners ro @ [?r]\<rparr>) (storage c)"
      from all_listeners_update [OF Some, of ?r]
      have m: "mset (all_listeners ?st) = mset (all_listeners (storage c) @ [?r])" by simp
      from mset_eq_imp_distinct_iff [OF m] dl fresh have d2: "distinct (all_listeners ?st)" by simp
      from mset_eq_setD [OF m] have s2: "set (all_listeners ?st) = insert ?r (set (all_listeners (storage c)))"
        by simp
      from False Some dk d2 s2 keep [of "\<lparr>chan_closed = False, chan_buf = []\<rparr>"] show ?thesis
        by (simp add: enqueue_def make_chan_def cache_wf_def list_all_iff distinct_update nth_append)
    qed
  qed
qed

lemma enqueue_preserves_counter:
  assumes "counter_inv c"
  shows "counter_inv (snd (enqueue sha256 k as c))"
proof (cases "stopped c")
  case True
  with assms show ?thesis
    by (simp add: enqueue_def make_chan_def counter_inv_def)
next
  case False
  let ?h = "hashStringSlice sha256 k as"
  show ?thesis
  proof (cases "map_of (storage c) ?h")
    case None
    with False assms show ?thesis
      by (simp add: enqueue_def make_chan_def counter_inv_def all_listeners_append
          all_listeners_Cons all_listeners_def [of "[]"])
  next
    case (Some ro)
    from all_listeners_update [OF Some, of "length (chans c)"]
    have "size (mset (all_listeners (AList.update ?h (ro\<lparr>listeners := listeners ro @ [length (chans c)]\<rparr>) (storage c))))
        = size (mset (all_listeners (storage c)) + {#length (chans c)#})"
      by simp
    then have "length (all_listeners (AList.update ?h (ro\<lparr>listeners := listeners ro @ [length (chans c)]\<rparr>) (storage c)))
        = length (all_listeners (storage c)) + 1"
      by simp
    with False Some assms show ?thesis
      by (simp add: enqueue_def make_chan_def counter_inv_def)
  qed
qed


lemma all_listeners_delete_length:
  "distinct (map fst st) \<Longrightarrow> (h, ro) \<in> set st \<Longrightarrow>
     length (all_listeners (AList.delete h st)) + length (listeners ro) = length (all_listeners st)"
proof (induction st)
  case Nil
  then show ?case by simp
next
  case (Cons p st)
  obtain k x where p: "p = (k, x)" by (cases p)
  show ?case
  proof (cases "k = h")
    case True
    with Cons.prems p have x: "x = ro" and notin: "h \<notin> fst ` set st"
      by (auto simp: image_iff)
    from notin have "AList.delete h st = st"
      by (induction st) auto
    with True x p show ?thesis by (simp add: all_listeners_Cons)
  next
    case False
    with Cons p show ?thesis by (auto simp: all_listeners_Cons)
  qed
qed

lemma sendResult_keeps_inv:
  assumes wf: "cache_wf c" and ci: "counter_inv c" and op: "listeners_open c"
    and res: "sendResult h v c = Some c'"
  shows "cache_wf c' \<and> counter_inv c' \<and> listeners_open c'"
proof (cases "map_of (storage c) h")
  case None
  with res have "c' = c\<lparr>logged := logged c @ [LogError (Wrapped ErrHashNotFound h)]\<rparr>"
    by (simp add: sendResult_missing)
  with wf ci op show ?thesis
    by (simp add: cache_wf_def counter_inv_def listeners_open_def)
next
  case (Some ro)
  then have mem: "(h, ro) \<in> set (storage c)" by (rule map_of_SomeD)
  note e = cache_wf_entry [OF wf mem]
  from mem have sub: "set (listeners ro) \<subseteq> set (all_listeners (storage c))"
    unfolding all_listeners_mem subset_iff by auto
  with op have opn: "\<forall>r\<in>set (listeners ro). \<not> chan_closed (chans c ! r)"
    by (auto simp: listeners_open_def list_all_iff)
  from sendResult_entry [OF Some e(2) e(3), of v] res opn
  have c': "storage c' = AList.delete h (storage c)"
    "length (chans c') = length (chans c)"
    "\<forall>i. i \<notin> set (listeners ro) \<longrightarrow> chans c' ! i = chans c ! i"
    "activeListeners c' = activeListeners c - of_nat (length (listeners ro))"
    by auto
  note a = cache_wf_after_entry [OF wf mem c'(1) c'(2) c'(3)]
  from wf have dk: "distinct (map fst (storage c))" by (simp add: cache_wf_def)
  from all_listeners_delete_length [OF dk mem] c'(1)
  have "length (all_listeners (storage c)) = length (all_listeners (storage c')) + length (listeners ro)"
    by simp
  with ci c'(4) have cnt: "counter_inv c'"
    by (simp add: counter_inv_def)
  have "\<not> chan_closed (chans c' ! r)" if "r \<in> set (all_listeners (storage c'))" for r
  proof -
    from that obtain h' ro' where m': "(h', ro') \<in> set (storage c')" and r: "r \<in> set (listeners ro')"
      unfolding all_listeners_mem by blast
    from a(2) m' r have "(h', ro') \<in> set (storage c)" "chans c' ! r = chans c ! r" by auto
    moreover from this(1) r have "r \<in> set (all_listeners (storage c))"
      unfolding all_listeners_mem by blast
    ultimately show ?thesis using op by (simp add: listeners_open_def list_all_iff)
  qed
  then have "listeners_open c'" by (simp add: listeners_open_def list_all_iff)
  with a(1) cnt show ?thesis by simp
qed

lemma send_all_keeps_inv:
  "cache_wf c \<Longrightarrow> counter_inv c \<Longrightarrow> listeners_open c \<Longrightarrow> send_all ds c = Some c' \<Longrightarrow>
     cache_wf c' \<and> counter_inv c' \<and> listeners_open c'"
proof (induction ds arbitrary: c)
  case Nil
  then show ?case by simp
next
  case (Cons d ds)
  obtain h v where d: "d = (h, v)" by (cases d)
  from Cons.prems(4) d obtain c1 where c1: "sendResult h v c = Some c1" "send_all ds c1 = Some c'"
    by (auto split: option.splits)
  from sendResult_keeps_inv [OF Cons.prems(1-3) c1(1)]
  have "cache_wf c1" "counter_inv c1" "listeners_open c1" by simp_all
  from Cons.IH [OF this c1(2)] show ?case .
qed

lemma runPipeline_keeps_inv:
  assumes wf: "cache_wf c" and ci: "counter_inv c" and op: "listeners_open c"
  shows "cache_wf (snd (snd (runPipeline intSize env c)))
       \<and> counter_inv (snd (snd (runPipeline intSize env c)))
       \<and> listeners_open (snd (snd (runPipeline intSize env c)))"
proof (cases "queue_all intSize (go_range (range_order env StorageMap) (storage c))")
  case None
  with assms show ?thesis by (simp add: runPipeline_def)
next
  case (Some pipe)
  show ?thesis
  proof (cases "bulk_failure (exec_error env)")
    case True
    with Some assms show ?thesis
      by (simp add: runPipeline_def cache_wf_def counter_inv_def listeners_open_def)
  next
    case False
    let ?c0 = "c\<lparr>lastPipeline := exec_now env div 1000\<rparr>"
    from assms have i0: "cache_wf ?c0" "counter_inv ?c0" "listeners_open ?c0"
      by (simp_all add: cache_wf_def counter_inv_def listeners_open_def)
    show ?thesis
    proof (cases "send_all (deliveries env pipe) ?c0")
      case None
      with Some False assms show ?thesis by (simp add: runPipeline_def)
    next
      case (Some c')
      from send_all_keeps_inv [OF i0 Some] \<open>queue_all intSize _ = Some pipe\<close> False Some
      show ?thesis by (simp add: runPipeline_def)
    qed
  qed
qed

text \<open>
  The loop over the listeners at a closed handle: the listeners before it are served, the
  panic ends the loop, and the channels of the listeners after it are left as they were.
\<close>

lemma deliver_stops_at_closed:
  "distinct (rs1 @ r # rs2) \<Longrightarrow>
   \<forall>x\<in>set rs1. x < length (chans c) \<and> chan_buf (chans c ! x) = [] \<and> \<not> chan_closed (chans c ! x) \<Longrightarrow>
   r < length (chans c) \<Longrightarrow> chan_closed (chans c ! r) \<Longrightarrow>
     \<exists>c'. deliver v (rs1 @ r # rs2) c = Recovered c'
       \<and> (\<forall>x\<in>set rs2. chans c' ! x = chans c ! x)
       \<and> activeListeners c' = activeListeners c - of_nat (length rs1)"
proof (induction rs1 arbitrary: c)
  case Nil
  then show ?case by (simp add: chan_send_def)
next
  case (Cons a rs1)
  let ?h = "(chans c)[a := (chans c ! a)\<lparr>chan_buf := [v]\<rparr>]"
  let ?c1 = "c\<lparr>chans := ?h, activeListeners := activeListeners c - 1\<rparr>"
  from Cons.prems have sent: "chan_send a v (chans c) = Sent ?h"
    by (simp add: chan_send_ready)
  from Cons.prems have ne: "a \<noteq> r" "a \<notin> set rs1" "a \<notin> set rs2" by auto
  from Cons.prems ne
  have p: "distinct (rs1 @ r # rs2)"
    "\<forall>x\<in>set rs1. x < length (chans ?c1) \<and> chan_buf (chans ?c1 ! x) = [] \<and> \<not> chan_closed (chans ?c1 ! x)"
    "r < length (chans ?c1)" "chan_closed (chans ?c1 ! r)"
    by (auto simp: nth_list_update)
  from Cons.IH [OF p] obtain c' where c': "deliver v (rs1 @ r # rs2) ?c1 = Recovered c'"
    "\<forall>x\<in>set rs2. chans c' ! x = chans ?c1 ! x"
    "activeListeners c' = activeListeners ?c1 - of_nat (length rs1)"
    by blast
  have "\<forall>x\<in>set rs2. ?h ! x = chans c ! x"
    using ne(3) by (metis nth_list_update_neq)
  with c'(2) have "\<forall>x\<in>set rs2. chans c' ! x = chans c ! x"
    by simp
  with c' sent show ?case by simp
qed

text \<open>
  The arguments the client's methods store (the transform functions' results) are queued as
  the call the method was given.
\<close>

lemma queue_cmd_of_transform:
  "queue_cmd w \<lparr>args = transformHDel key flds, listeners = ls, kind = HDel\<rparr> = Some (IntCmd, HDelCall key flds)"
  "queue_cmd w \<lparr>args = transformDel keys, listeners = ls, kind = Del\<rparr> = Some (IntCmd, DelCall keys)"
  "queue_cmd w \<lparr>args = transformMGet keys, listeners = ls, kind = MGet\<rparr> = Some (SliceCmd, MGetCall keys)"
  "queue_cmd w \<lparr>args = transformHGet key field, listeners = ls, kind = HGet\<rparr> = Some (StringCmd, HGetCall key field)"
  "queue_cmd w \<lparr>args = transformGet key, listeners = ls, kind = Get\<rparr> = Some (StringCmd, GetCall key)"
  "queue_cmd w \<lparr>args = transformHGetAll key, listeners = ls, kind = HGetAll\<rparr> = Some (MapStringStringCmd, HGetAllCall key)"
  "queue_cmd w \<lparr>args = transformSMembers key, listeners = ls, kind = SMembers\<rparr> = Some (StringSliceCmd, SMembersCall key)"
  "queue_cmd w \<lparr>args = transformExpire w key d, listeners = ls, kind = Expire\<rparr>
     = Some (BoolCmd, ExpireCall key (Atoi w (Itoa (go_int w d))))"
  by (cases flds; simp add: queue_cmd_def transformHDel_def normalizeHDel_def transformDel_def normalizeDel_def
      transformMGet_def normalizeMGet_def transformHGet_def normalizeHGet_def transformGet_def
      normalizeGet_def transformHGetAll_def normalizeHGetAll_def transformSMembers_def
      normalizeSMembers_def transformExpire_def normalizeExpire_def)+

section \<open>The size trigger and the stored threshold\<close>

text \<open>
  A tick flushes by the size trigger if and only if the listener counter is strictly greater
  than the field \<open>storageThresholdSize\<close>, and then the tick is that one flush, whatever the
  clock shows: the time trigger is not looked at.
\<close>

lemma tick_size_trigger:
  "((\<exists>res. tick intSize te c = Flush SizeTrigger res) \<longleftrightarrow>
      sint (storageThresholdSize c) < sint (activeListeners c))
   \<and> (sint (storageThresholdSize c) < sint (activeListeners c) \<longrightarrow>
        tick intSize te c = Flush SizeTrigger (runPipeline intSize (tick_flush te) c))"
proof (cases "sint (storageThresholdSize c) < sint (activeListeners c)")
  case True
  then have "tick intSize te c = Flush SizeTrigger (runPipeline intSize (tick_flush te) c)"
    by (simp add: tick_def)
  with True show ?thesis by blast
next
  case False
  then have "\<And>res. tick intSize te c \<noteq> Flush SizeTrigger res"
    by (simp add: tick_def Let_def)
  with False show ?thesis by simp
qed

text \<open>With three listeners the trigger fires at the threshold 2 and not at the threshold 3.\<close>

lemma tick_size_trigger_example:
  "sint (storageThresholdSize (two_ops\<lparr>storageThresholdSize := 2\<rparr>))
     < sint (activeListeners (two_ops\<lparr>storageThresholdSize := 2\<rparr>))
   \<and> tick 64 (tick_at 1700000000000050000) (two_ops\<lparr>storageThresholdSize := 2\<rparr>)
       = Flush SizeTrigger (runPipeline 64 env_ok (two_ops\<lparr>storageThresholdSize := 2\<rparr>))
   \<and> \<not> (\<exists>res. tick 64 (tick_at 1700000000000050000) (two_ops\<lparr>storageThresholdSize := 3\<rparr>)
             = Flush SizeTrigger res)"
  using tick_size_trigger [of 64 "tick_at 1700000000000050000" "two_ops\<lparr>storageThresholdSize := 2\<rparr>"]
    tick_size_trigger [of 64 "tick_at 1700000000000050000" "two_ops\<lparr>storageThresholdSize := 3\<rparr>"]
  by (simp add: two_ops_def tick_at_def)

text \<open>
  The field is the configured maximum as long as that is below \<open>2 ^ 31\<close>; from there on
  \<^verbatim>\<open>int32(size)\<close> wraps around.
\<close>

lemma newCache_threshold:
  "maxSize < 2 ^ 31 \<Longrightarrow>
     sint (storageThresholdSize (newCache now ttl interval maxSize)) = int maxSize"
  by (simp add: newCache_def signed_of_nat signed_take_bit_int_eq_self)

section \<open>Evaluation of the example states\<close>

lemmas example_defs =
  fp_abc_def fp_a_b_c_def open_chan_def range_reversed_def reply_of_def env_ok_def env_eof_def
  env_nil_def two_ops_def waiting_one_def tick_at_def

lemmas flush_eval =
  runPipeline_def go_range_def List.map_filter_def queue_cmd_def normalizeHDel_def
  bulk_failure_def deliveries_def cmds_of_def sendResult_def chan_send_def
  resultChannelBufferSize_def close_chan_def

lemma test_digest_fp_abc: "hashStringSlice test_digest HDel [''abc''] = fp_abc"
  by (simp add: hashStringSlice_def test_digest_def sprintf_x_def hex_digit_def fp_abc_def)

lemma test_digest_fp_a_b_c: "hashStringSlice test_digest HDel [''a'', ''b'', ''c''] = fp_a_b_c"
  by (simp add: hashStringSlice_def test_digest_def sprintf_x_def hex_digit_def fp_a_b_c_def
      hashBuffer_def hashDelimiter_def)

lemma two_ops_pipeline:
  "queue_all 64 (go_range (range_order env_ok StorageMap) (storage two_ops))
     = Some [(fp_a_b_c, IntCmd, HDelCall ''a'' [''b'', ''c'']), (fp_abc, IntCmd, HDelCall ''abc'' [])]"
  by (simp add: example_defs flush_eval)

lemma two_ops_pipeline_nil:
  "queue_all 64 (go_range (range_order env_nil StorageMap) (storage two_ops))
     = Some [(fp_a_b_c, IntCmd, HDelCall ''a'' [''b'', ''c'']), (fp_abc, IntCmd, HDelCall ''abc'' [])]"
  using two_ops_pipeline by (simp add: env_nil_def env_ok_def)

lemma two_ops_flush_eof:
  "runPipeline 64 env_eof two_ops =
     (BulkFailed,
      [(fp_a_b_c, IntCmd, HDelCall ''a'' [''b'', ''c'']), (fp_abc, IntCmd, HDelCall ''abc'' [])],
      two_ops\<lparr>logged := [LogError (TransportError ''EOF'')]\<rparr>)"
  by (simp add: example_defs flush_eval)

lemma two_ops_flush_ok:
  "runPipeline 64 env_ok two_ops =
     (Completed,
      [(fp_a_b_c, IntCmd, HDelCall ''a'' [''b'', ''c'']), (fp_abc, IntCmd, HDelCall ''abc'' [])],
      two_ops\<lparr>storage := [], activeListeners := 0, lastPipeline := 1700000000000900,
        chans := [\<lparr>chan_closed = False, chan_buf = [RedisCmd IntCmd (HDelCall ''abc'' []) ''1'']\<rparr>,
                  \<lparr>chan_closed = False, chan_buf = [RedisCmd IntCmd (HDelCall ''abc'' []) ''1'']\<rparr>,
                  \<lparr>chan_closed = False, chan_buf = [RedisCmd IntCmd (HDelCall ''a'' [''b'', ''c'']) ''2'']\<rparr>]\<rparr>)"
  by (simp add: example_defs flush_eval)

text \<open>The caller of handle 0 closes it before the flush.\<close>

lemma two_ops_flush_first_closed:
  "runPipeline 64 env_ok (two_ops\<lparr>chans := close_chan 0 (chans two_ops)\<rparr>) =
     (Completed,
      [(fp_a_b_c, IntCmd, HDelCall ''a'' [''b'', ''c'']), (fp_abc, IntCmd, HDelCall ''abc'' [])],
      two_ops\<lparr>storage := [], activeListeners := 2, lastPipeline := 1700000000000900,
        logged := [LogRecovered ''send on closed channel''],
        chans := [\<lparr>chan_closed = True, chan_buf = []\<rparr>,
                  \<lparr>chan_closed = False, chan_buf = []\<rparr>,
                  \<lparr>chan_closed = False, chan_buf = [RedisCmd IntCmd (HDelCall ''a'' [''b'', ''c'']) ''2'']\<rparr>]\<rparr>)"
  by (simp add: example_defs flush_eval)

text \<open>The caller of handle 1 closes it before the flush.\<close>

lemma two_ops_flush_second_closed:
  "runPipeline 64 env_ok (two_ops\<lparr>chans := close_chan 1 (chans two_ops)\<rparr>) =
     (Completed,
      [(fp_a_b_c, IntCmd, HDelCall ''a'' [''b'', ''c'']), (fp_abc, IntCmd, HDelCall ''abc'' [])],
      two_ops\<lparr>storage := [], activeListeners := 1, lastPipeline := 1700000000000900,
        logged := [LogRecovered ''send on closed channel''],
        chans := [\<lparr>chan_closed = False, chan_buf = [RedisCmd IntCmd (HDelCall ''abc'' []) ''1'']\<rparr>,
                  \<lparr>chan_closed = True, chan_buf = []\<rparr>,
                  \<lparr>chan_closed = False, chan_buf = [RedisCmd IntCmd (HDelCall ''a'' [''b'', ''c'']) ''2'']\<rparr>]\<rparr>)"
  by (simp add: example_defs flush_eval)

text \<open>
  The state \<open>two_ops\<close> is what three calls of \<^verbatim>\<open>enqueue\<close> build from a new cache.
\<close>

lemma two_ops_built_by_enqueue:
  "snd (enqueue test_digest HDel [''a'', ''b'', ''c'']
     (snd (enqueue test_digest HDel [''abc'']
       (snd (enqueue test_digest HDel [''abc''] (newCache 1700000000000000999 1000000 50000 100))))))
   = two_ops"
  by (simp add: enqueue_def make_chan_def newCache_def test_digest_fp_abc test_digest_fp_a_b_c)
     (simp add: example_defs)

section \<open>The claims\<close>

text \<open>
  Claim C1, as the code has it. A flush snapshots a well-formed cache whose entries hold
  arguments the normalize functions accept. Then for every entry of the storage the flush
  returns with the entry's call in the pipeline exactly once (the call that \<^verbatim>\<open>switch op.kind\<close>
  builds from the entry's kind and arguments). When the round trip does not fail wholesale,
  the flush completes, and if no listener of the entry has closed its handle, every handle in
  the entry's listener list holds, as its only value, the command object of that one call.
  This holds for every order in which the \<^verbatim>\<open>range\<close> loops visit the maps, and whatever has
  happened to the listeners of the other entries.
\<close>

theorem runPipeline_fan_out:
  assumes wf: "cache_wf c"
    and perm: "\<forall>m ks. mset (range_order env m ks) = mset ks"
    and shaped: "\<forall>(hash, ro)\<in>set (storage c). queue_cmd intSize ro \<noteq> None"
    and entry: "(h, ro) \<in> set (storage c)"
  shows "\<exists>outcome pipe c' t call. runPipeline intSize env c = (outcome, pipe, c')
      \<and> queue_cmd intSize ro = Some (t, call)
      \<and> filter (\<lambda>q. fst q = h) pipe = [(h, t, call)]
      \<and> (\<not> bulk_failure (exec_error env) \<longrightarrow>
            outcome = Completed
            \<and> ((\<forall>r\<in>set (listeners ro). \<not> chan_closed (chans c ! r)) \<longrightarrow>
                 (\<forall>r\<in>set (listeners ro). chan_buf (chans c' ! r) = [RedisCmd t call (exec_reply env h)])))"
proof -
  from flush_delivers [OF wf perm shaped]
  obtain outcome pipe c' where r: "runPipeline intSize env c = (outcome, pipe, c')"
    and out: "\<not> bulk_failure (exec_error env) \<longrightarrow> outcome = Completed"
    and each: "\<forall>h ro. (h, ro) \<in> set (storage c) \<longrightarrow>
            (\<exists>t call. queue_cmd intSize ro = Some (t, call)
               \<and> filter (\<lambda>q. fst q = h) pipe = [(h, t, call)]
               \<and> (\<not> bulk_failure (exec_error env) \<longrightarrow>
                    (\<forall>r\<in>set (listeners ro). \<not> chan_closed (chans c ! r)) \<longrightarrow>
                    (\<forall>r\<in>set (listeners ro).
                       chan_buf (chans c' ! r) = [RedisCmd t call (exec_reply env h)])))"
    by blast
  from each entry obtain t call where tc: "queue_cmd intSize ro = Some (t, call)"
    and once: "filter (\<lambda>q. fst q = h) pipe = [(h, t, call)]"
    and got: "\<not> bulk_failure (exec_error env) \<longrightarrow>
                    (\<forall>r\<in>set (listeners ro). \<not> chan_closed (chans c ! r)) \<longrightarrow>
                    (\<forall>r\<in>set (listeners ro).
                       chan_buf (chans c' ! r) = [RedisCmd t call (exec_reply env h)])"
    by blast
  from out got have "\<not> bulk_failure (exec_error env) \<longrightarrow>
            outcome = Completed
            \<and> ((\<forall>r\<in>set (listeners ro). \<not> chan_closed (chans c ! r)) \<longrightarrow>
                 (\<forall>r\<in>set (listeners ro). chan_buf (chans c' ! r) = [RedisCmd t call (exec_reply env h)]))"
    by simp
  with r tc once show ?thesis
    by - (rule exI [of _ outcome], rule exI [of _ pipe], rule exI [of _ c'], rule exI [of _ t],
        rule exI [of _ call], intro conjI)
qed

text \<open>
  Claim C1 as stated fails where the round trip fails: the call is queued once, the flush
  returns after logging the error, and the two callers that wait for \<^verbatim>\<open>HDel abc\<close> are
  given nothing (a receive on their handles still blocks).
\<close>

theorem fan_out_bulk_failure_counterexample:
  "(fp_abc, \<lparr>args = [''abc''], listeners = [0, 1], kind = HDel\<rparr>) \<in> set (storage two_ops)
   \<and> fst (runPipeline 64 env_eof two_ops) = BulkFailed
   \<and> filter (\<lambda>q. fst q = fp_abc) (fst (snd (runPipeline 64 env_eof two_ops)))
        = [(fp_abc, IntCmd, HDelCall ''abc'' [])]
   \<and> chan_recv 0 (chans (snd (snd (runPipeline 64 env_eof two_ops)))) = RecvBlocks
   \<and> chan_recv 1 (chans (snd (snd (runPipeline 64 env_eof two_ops)))) = RecvBlocks"
  unfolding two_ops_flush_eof
  by (simp add: example_defs chan_recv_def)

text \<open>The theorem of C1 at \<open>two_ops\<close>, with the maps visited in reverse order.\<close>

theorem runPipeline_fan_out_witness:
  "cache_wf two_ops
   \<and> (\<forall>m ks. mset (range_order env_ok m ks) = mset ks)
   \<and> list_all (\<lambda>(hash, ro). queue_cmd 64 ro \<noteq> None) (storage two_ops)
   \<and> (fp_abc, \<lparr>args = [''abc''], listeners = [0, 1], kind = HDel\<rparr>) \<in> set (storage two_ops)
   \<and> \<not> bulk_failure (exec_error env_ok)
   \<and> \<not> chan_closed (chans two_ops ! 0) \<and> \<not> chan_closed (chans two_ops ! 1)
   \<and> (\<exists>pipe c'. runPipeline 64 env_ok two_ops = (Completed, pipe, c')
        \<and> filter (\<lambda>q. fst q = fp_abc) pipe = [(fp_abc, IntCmd, HDelCall ''abc'' [])]
        \<and> chan_buf (chans c' ! 0) = [RedisCmd IntCmd (HDelCall ''abc'' []) ''1'']
        \<and> chan_buf (chans c' ! 1) = [RedisCmd IntCmd (HDelCall ''abc'' []) ''1''])"
proof -
  let ?ro = "\<lparr>args = [''abc''], listeners = [0, 1], kind = HDel\<rparr>"
  have wf: "cache_wf two_ops"
    by (simp add: cache_wf_def all_listeners_def example_defs)
  have perm: "\<forall>m ks. mset (range_order env_ok m ks) = mset ks"
    by (simp add: env_ok_def range_reversed_def)
  have shaped: "\<forall>(hash, ro)\<in>set (storage two_ops). queue_cmd 64 ro \<noteq> None"
    by (simp add: two_ops_def queue_cmd_def normalizeHDel_def)
  have entry: "(fp_abc, ?ro) \<in> set (storage two_ops)"
    by (simp add: two_ops_def)
  have ok: "\<not> bulk_failure (exec_error env_ok)"
    by (simp add: env_ok_def bulk_failure_def)
  have opn: "\<not> chan_closed (chans two_ops ! 0)" "\<not> chan_closed (chans two_ops ! 1)"
    by (simp_all add: two_ops_def open_chan_def)
  have q: "queue_cmd 64 ?ro = Some (IntCmd, HDelCall ''abc'' [])"
    by (simp add: queue_cmd_def normalizeHDel_def)
  have r: "exec_reply env_ok fp_abc = ''1''"
    by (simp add: env_ok_def reply_of_def)
  from runPipeline_fan_out [OF wf perm shaped entry] ok opn
  have "\<exists>pipe c'. runPipeline 64 env_ok two_ops = (Completed, pipe, c')
        \<and> filter (\<lambda>q. fst q = fp_abc) pipe = [(fp_abc, IntCmd, HDelCall ''abc'' [])]
        \<and> chan_buf (chans c' ! 0) = [RedisCmd IntCmd (HDelCall ''abc'' []) ''1'']
        \<and> chan_buf (chans c' ! 1) = [RedisCmd IntCmd (HDelCall ''abc'' []) ''1'']"
    unfolding q r by auto
  with wf perm shaped ok entry opn show ?thesis
    by (simp add: list_all_iff)
qed

text \<open>
  Claim C2 at a concrete flush. The caller of handle 0 has closed it; handles 0 and 1 wait for
  the same operation, handle 2 for another one. The send on handle 0 panics, the panic is
  recovered and logged, and the flush goes on to the other operation, whose listener receives
  its result. But the recovery happens after the loop over the listeners has been left: handle 1,
  which waits for the same operation as the closed handle, is never sent anything.
\<close>

theorem sendResult_abandoned_listener:
  "fst (runPipeline 64 env_ok (two_ops\<lparr>chans := close_chan 0 (chans two_ops)\<rparr>)) = Completed
   \<and> logged (snd (snd (runPipeline 64 env_ok (two_ops\<lparr>chans := close_chan 0 (chans two_ops)\<rparr>))))
        = [LogRecovered ''send on closed channel'']
   \<and> chan_recv 1 (chans (snd (snd (runPipeline 64 env_ok (two_ops\<lparr>chans := close_chan 0 (chans two_ops)\<rparr>)))))
        = RecvBlocks
   \<and> chan_recv 2 (chans (snd (snd (runPipeline 64 env_ok (two_ops\<lparr>chans := close_chan 0 (chans two_ops)\<rparr>)))))
        = Received (RedisCmd IntCmd (HDelCall ''a'' [''b'', ''c'']) ''2'')"
  unfolding two_ops_flush_first_closed
  by (simp add: example_defs chan_recv_def)

text \<open>
  Claim C3 at a concrete pair. The buffer that is hashed joins the arguments with the
  delimiter and does not escape it: the one argument \<^verbatim>\<open>"a,b"\<close> and the two arguments \<^verbatim>\<open>"a"\<close>,
  \<^verbatim>\<open>"b"\<close> give the same buffer, hence the same fingerprint, whatever the digest function is.
\<close>

theorem hashStringSlice_delimiter_collision:
  "[''a,b''] \<noteq> [''a'', ''b'']
   \<and> hashStringSlice sha256 Del [''a,b''] = hashStringSlice sha256 Del [''a'', ''b'']"
  by (simp add: hashStringSlice_def hashBuffer_def hashDelimiter_def)

text \<open>
  Claim C4. The snapshot has been queued and \<^verbatim>\<open>Exec\<close> returns an error. If the error is not
  \<^verbatim>\<open>redis.Nil\<close>, the flush returns with the cache as it was but for the logged error: storage,
  listener counter, channels and last-flush time are unchanged, so no listener has received
  anything. If the error is \<^verbatim>\<open>redis.Nil\<close>, the flush does what it does when \<^verbatim>\<open>Exec\<close> returns no
  error, and it delivers: on a well-formed cache, for every order of the \<^verbatim>\<open>range\<close> loops, it
  completes, stores the new last-flush time, and every listener of every entry whose handles
  are open holds the command object of the entry's call as its only value.
\<close>

theorem runPipeline_bulk_error:
  assumes q: "queue_all intSize (go_range (range_order env StorageMap) (storage c)) = Some pipe"
    and err: "exec_error env = Some e"
  shows "(\<not> errors_Is_RedisNil e \<longrightarrow>
            runPipeline intSize env c = (BulkFailed, pipe, c\<lparr>logged := logged c @ [LogError e]\<rparr>))
       \<and> (errors_Is_RedisNil e \<longrightarrow>
            runPipeline intSize env c = runPipeline intSize (env\<lparr>exec_error := None\<rparr>) c
            \<and> (cache_wf c \<and> (\<forall>m ks. mset (range_order env m ks) = mset ks) \<longrightarrow>
                 (\<exists>c'. runPipeline intSize env c = (Completed, pipe, c')
                    \<and> lastPipeline c' = exec_now env div 1000
                    \<and> (\<forall>h ro t call. (h, ro) \<in> set (storage c)
                          \<and> queue_cmd intSize ro = Some (t, call)
                          \<and> (\<forall>r\<in>set (listeners ro). \<not> chan_closed (chans c ! r))
                        \<longrightarrow> (\<forall>r\<in>set (listeners ro).
                               chan_buf (chans c' ! r) = [RedisCmd t call (exec_reply env h)])))))"
proof (intro conjI impI)
  assume "\<not> errors_Is_RedisNil e"
  with q err show "runPipeline intSize env c = (BulkFailed, pipe, c\<lparr>logged := logged c @ [LogError e]\<rparr>)"
    by (simp add: runPipeline_def bulk_failure_def)
next
  assume "errors_Is_RedisNil e"
  with q err show "runPipeline intSize env c = runPipeline intSize (env\<lparr>exec_error := None\<rparr>) c"
    by (simp add: runPipeline_def bulk_failure_def deliveries_def cmds_of_def)
next
  assume nil: "errors_Is_RedisNil e"
    and h: "cache_wf c \<and> (\<forall>m ks. mset (range_order env m ks) = mset ks)"
  then have wf: "cache_wf c" and perm: "\<forall>m ks. mset (range_order env m ks) = mset ks"
    by simp_all
  from nil err have ok: "\<not> bulk_failure (exec_error env)" by (simp add: bulk_failure_def)
  from wf have dk: "distinct (map fst (storage c))" by (simp add: cache_wf_def)
  from queue_all_shaped [OF q] snapshot_facts(1) [OF dk perm, of StorageMap]
  have shaped: "\<forall>(hash, ro)\<in>set (storage c). queue_cmd intSize ro \<noteq> None" by simp
  from flush_delivers [OF wf perm shaped]
  obtain outcome pipe' c' where r: "runPipeline intSize env c = (outcome, pipe', c')"
    and q': "queue_all intSize (go_range (range_order env StorageMap) (storage c)) = Some pipe'"
    and out: "\<not> bulk_failure (exec_error env) \<longrightarrow> outcome = Completed"
    and each: "\<forall>h ro. (h, ro) \<in> set (storage c) \<longrightarrow>
            (\<exists>t call. queue_cmd intSize ro = Some (t, call)
               \<and> filter (\<lambda>q. fst q = h) pipe' = [(h, t, call)]
               \<and> (\<not> bulk_failure (exec_error env) \<longrightarrow>
                    (\<forall>r\<in>set (listeners ro). \<not> chan_closed (chans c ! r)) \<longrightarrow>
                    (\<forall>r\<in>set (listeners ro).
                       chan_buf (chans c' ! r) = [RedisCmd t call (exec_reply env h)])))"
    by blast
  from r q q' out ok have run: "runPipeline intSize env c = (Completed, pipe, c')" by simp
  from run have lp: "lastPipeline c' = exec_now env div 1000" by (rule runPipeline_lastPipeline)
  have "\<forall>r\<in>set (listeners ro). chan_buf (chans c' ! r) = [RedisCmd t call (exec_reply env h)]"
    if "(h, ro) \<in> set (storage c)" "queue_cmd intSize ro = Some (t, call)"
      "\<forall>r\<in>set (listeners ro). \<not> chan_closed (chans c ! r)" for h ro t call
  proof -
    from each that(1) obtain t' call' where "queue_cmd intSize ro = Some (t', call')"
      and d: "\<not> bulk_failure (exec_error env) \<longrightarrow>
                    (\<forall>r\<in>set (listeners ro). \<not> chan_closed (chans c ! r)) \<longrightarrow>
                    (\<forall>r\<in>set (listeners ro).
                       chan_buf (chans c' ! r) = [RedisCmd t' call' (exec_reply env h)])"
      by blast
    with that(2) have "t' = t" "call' = call" by simp_all
    with d ok that(3) show ?thesis by simp
  qed
  with run lp show "\<exists>c'. runPipeline intSize env c = (Completed, pipe, c')
                    \<and> lastPipeline c' = exec_now env div 1000
                    \<and> (\<forall>h ro t call. (h, ro) \<in> set (storage c)
                          \<and> queue_cmd intSize ro = Some (t, call)
                          \<and> (\<forall>r\<in>set (listeners ro). \<not> chan_closed (chans c ! r))
                        \<longrightarrow> (\<forall>r\<in>set (listeners ro).
                               chan_buf (chans c' ! r) = [RedisCmd t call (exec_reply env h)]))"
    by blast
qed



text \<open>
  The theorem of C4 at \<open>two_ops\<close>: with the transport error nothing is delivered; with
  \<^verbatim>\<open>redis.Nil\<close> the three handles receive their results.
\<close>

theorem runPipeline_bulk_error_witness:
  "queue_all 64 (go_range (range_order env_eof StorageMap) (storage two_ops))
     = Some [(fp_a_b_c, IntCmd, HDelCall ''a'' [''b'', ''c'']), (fp_abc, IntCmd, HDelCall ''abc'' [])]
   \<and> exec_error env_eof = Some (TransportError ''EOF'')
   \<and> \<not> errors_Is_RedisNil (TransportError ''EOF'')
   \<and> runPipeline 64 env_eof two_ops =
       (BulkFailed,
        [(fp_a_b_c, IntCmd, HDelCall ''a'' [''b'', ''c'']), (fp_abc, IntCmd, HDelCall ''abc'' [])],
        two_ops\<lparr>logged := logged two_ops @ [LogError (TransportError ''EOF'')]\<rparr>)
   \<and> queue_all 64 (go_range (range_order env_nil StorageMap) (storage two_ops))
     = Some [(fp_a_b_c, IntCmd, HDelCall ''a'' [''b'', ''c'']), (fp_abc, IntCmd, HDelCall ''abc'' [])]
   \<and> exec_error env_nil = Some RedisNil
   \<and> errors_Is_RedisNil RedisNil
   \<and> cache_wf two_ops
   \<and> (\<forall>m ks. mset (range_order env_nil m ks) = mset ks)
   \<and> (\<exists>c'. runPipeline 64 env_nil two_ops =
           (Completed,
            [(fp_a_b_c, IntCmd, HDelCall ''a'' [''b'', ''c'']), (fp_abc, IntCmd, HDelCall ''abc'' [])],
            c')
        \<and> lastPipeline c' = 1700000000000900
        \<and> chan_buf (chans c' ! 0) = [RedisCmd IntCmd (HDelCall ''abc'' []) ''1'']
        \<and> chan_buf (chans c' ! 1) = [RedisCmd IntCmd (HDelCall ''abc'' []) ''1'']
        \<and> chan_buf (chans c' ! 2) = [RedisCmd IntCmd (HDelCall ''a'' [''b'', ''c'']) ''2''])"
proof -
  let ?pipe = "[(fp_a_b_c, IntCmd, HDelCall ''a'' [''b'', ''c'']), (fp_abc, IntCmd, HDelCall ''abc'' [])]"
  let ?ro1 = "\<lparr>args = [''abc''], listeners = [0, 1], kind = HDel\<rparr>"
  let ?ro2 = "\<lparr>args = [''a'', ''b'', ''c''], listeners = [2], kind = HDel\<rparr>"
  have q1: "queue_all 64 (go_range (range_order env_eof StorageMap) (storage two_ops)) = Some ?pipe"
    using two_ops_pipeline by (simp add: env_eof_def env_ok_def)
  note q2 = two_ops_pipeline_nil
  have e1: "exec_error env_eof = Some (TransportError ''EOF'')"
    by (simp add: env_eof_def)
  have e2: "exec_error env_nil = Some RedisNil"
    by (simp add: env_nil_def)
  have n1: "\<not> errors_Is_RedisNil (TransportError ''EOF'')" by simp
  have n2: "errors_Is_RedisNil RedisNil" by simp
  have wf: "cache_wf two_ops"
    by (simp add: cache_wf_def all_listeners_def example_defs)
  have perm: "\<forall>m ks. mset (range_order env_nil m ks) = mset ks"
    by (simp add: env_nil_def env_ok_def range_reversed_def)
  from runPipeline_bulk_error [OF q1 e1] n1
  have fail: "runPipeline 64 env_eof two_ops =
       (BulkFailed, ?pipe, two_ops\<lparr>logged := logged two_ops @ [LogError (TransportError ''EOF'')]\<rparr>)"
    by simp
  note d = runPipeline_bulk_error [OF q2 e2, THEN conjunct2, rule_format, OF n2, THEN conjunct2,
      rule_format, OF conjI [OF wf perm]]
  from d obtain c' where run: "runPipeline 64 env_nil two_ops = (Completed, ?pipe, c')"
    and lp: "lastPipeline c' = exec_now env_nil div 1000"
    and each: "\<forall>h ro t call. (h, ro) \<in> set (storage two_ops)
                          \<and> queue_cmd 64 ro = Some (t, call)
                          \<and> (\<forall>r\<in>set (listeners ro). \<not> chan_closed (chans two_ops ! r))
                        \<longrightarrow> (\<forall>r\<in>set (listeners ro).
                               chan_buf (chans c' ! r) = [RedisCmd t call (exec_reply env_nil h)])"
    by (elim exE conjE)
  have p1: "(fp_abc, ?ro1) \<in> set (storage two_ops) \<and> queue_cmd 64 ?ro1 = Some (IntCmd, HDelCall ''abc'' [])
      \<and> (\<forall>r\<in>set (listeners ?ro1). \<not> chan_closed (chans two_ops ! r))"
    by (simp add: two_ops_def queue_cmd_def normalizeHDel_def open_chan_def)
  have p2: "(fp_a_b_c, ?ro2) \<in> set (storage two_ops)
      \<and> queue_cmd 64 ?ro2 = Some (IntCmd, HDelCall ''a'' [''b'', ''c''])
      \<and> (\<forall>r\<in>set (listeners ?ro2). \<not> chan_closed (chans two_ops ! r))"
    by (simp add: two_ops_def queue_cmd_def normalizeHDel_def open_chan_def)
  from each p1 have "\<forall>r\<in>set (listeners ?ro1).
      chan_buf (chans c' ! r) = [RedisCmd IntCmd (HDelCall ''abc'' []) (exec_reply env_nil fp_abc)]"
    by blast
  then have b1: "chan_buf (chans c' ! 0) = [RedisCmd IntCmd (HDelCall ''abc'' []) ''1'']"
      "chan_buf (chans c' ! 1) = [RedisCmd IntCmd (HDelCall ''abc'' []) ''1'']"
    by (simp_all add: env_nil_def env_ok_def reply_of_def)
  from each p2 have "\<forall>r\<in>set (listeners ?ro2).
      chan_buf (chans c' ! r) = [RedisCmd IntCmd (HDelCall ''a'' [''b'', ''c'']) (exec_reply env_nil fp_a_b_c)]"
    by blast
  then have b2: "chan_buf (chans c' ! 2) = [RedisCmd IntCmd (HDelCall ''a'' [''b'', ''c'']) ''2'']"
    by (simp add: env_nil_def env_ok_def reply_of_def fp_abc_def fp_a_b_c_def)
  from lp have lp': "lastPipeline c' = 1700000000000900"
    by (simp add: env_nil_def env_ok_def)
  from run lp' b1 b2
  have "\<exists>c'. runPipeline 64 env_nil two_ops = (Completed, ?pipe, c')
        \<and> lastPipeline c' = 1700000000000900
        \<and> chan_buf (chans c' ! 0) = [RedisCmd IntCmd (HDelCall ''abc'' []) ''1'']
        \<and> chan_buf (chans c' ! 1) = [RedisCmd IntCmd (HDelCall ''abc'' []) ''1'']
        \<and> chan_buf (chans c' ! 2) = [RedisCmd IntCmd (HDelCall ''a'' [''b'', ''c'']) ''2'']"
    by - (rule exI [of _ c'], intro conjI)
  with q1 e1 n1 fail q2 e2 n2 wf perm show ?thesis
    by (intro conjI)
qed

text \<open>
  Claim C5. On a stopped cache \<^verbatim>\<open>enqueue\<close> returns a fresh handle that is closed and empty,
  so that a receive yields no value; it logs \<^verbatim>\<open>ErrCacheStopped\<close>; the storage and the listener
  counter are unchanged.
\<close>

theorem enqueue_when_stopped:
  assumes "stopped c"
  shows "case enqueue sha256 k as c of (resultCh, c') \<Rightarrow>
           resultCh = length (chans c)
           \<and> chan_recv resultCh (chans c') = RecvClosed
           \<and> logged c' = logged c @ [LogError ErrCacheStopped]
           \<and> storage c' = storage c
           \<and> activeListeners c' = activeListeners c"
  using assms
  by (simp add: enqueue_def make_chan_def close_chan_def chan_recv_def)

text \<open>The stopped cache of the example: the fresh handle is number 3.\<close>

theorem enqueue_when_stopped_witness:
  "stopped (two_ops\<lparr>stopped := True\<rparr>)
   \<and> fst (enqueue test_digest HDel [''abc''] (two_ops\<lparr>stopped := True\<rparr>)) = 3
   \<and> chan_recv 3 (chans (snd (enqueue test_digest HDel [''abc''] (two_ops\<lparr>stopped := True\<rparr>)))) = RecvClosed
   \<and> logged (snd (enqueue test_digest HDel [''abc''] (two_ops\<lparr>stopped := True\<rparr>))) = [LogError ErrCacheStopped]
   \<and> storage (snd (enqueue test_digest HDel [''abc''] (two_ops\<lparr>stopped := True\<rparr>))) = storage two_ops
   \<and> activeListeners (snd (enqueue test_digest HDel [''abc''] (two_ops\<lparr>stopped := True\<rparr>))) = 3"
proof -
  let ?c = "two_ops\<lparr>stopped := True\<rparr>"
  let ?e = "enqueue test_digest HDel [''abc''] ?c"
  have h: "stopped ?c" by simp
  have len: "length (chans ?c) = 3" "logged ?c = []" "storage ?c = storage two_ops" "activeListeners ?c = 3"
    by (simp_all add: two_ops_def)
  obtain r c' where e: "?e = (r, c')" by (cases ?e)
  from enqueue_when_stopped [OF h, of test_digest HDel "[''abc'']"] e len
  have "r = 3 \<and> chan_recv r (chans c') = RecvClosed \<and> logged c' = [LogError ErrCacheStopped]
     \<and> storage c' = storage two_ops \<and> activeListeners c' = 3"
    by auto
  with h e show ?thesis by auto
qed

text \<open>
  Claim C6, as the code has it. On a tick where the size trigger does not fire, a flush is
  performed if and only if the listener counter is greater than zero and the time since the
  stored last-flush time (kept in whole microseconds) is strictly greater than the time to
  live.
\<close>

theorem tick_time_trigger:
  assumes "\<not> sint (storageThresholdSize c) < sint (activeListeners c)"
  shows "tick_flushes (tick intSize te c) \<longleftrightarrow>
           0 < sint (activeListeners c)
           \<and> storageThresholdTime c < tick_now te - lastPipeline c * 1000"
  using assms by (auto simp: tick_def Let_def)

text \<open>
  Claim C6 as stated fails when exactly the time to live has passed: one listener waits, the
  last flush was 1 ms ago, the time to live is 1 ms, and the tick does not flush.
\<close>

theorem tick_at_ttl_counterexample:
  "\<not> sint (storageThresholdSize waiting_one) < sint (activeListeners waiting_one)
   \<and> 0 < sint (activeListeners waiting_one)
   \<and> storageThresholdTime waiting_one
        \<le> tick_now (tick_at 1700000000001000000) - lastPipeline waiting_one * 1000
   \<and> tick 64 (tick_at 1700000000001000000) waiting_one = NoFlush waiting_one"
  by (simp add: waiting_one_def tick_at_def tick_def)

text \<open>One nanosecond later the tick flushes.\<close>

theorem tick_time_trigger_witness:
  "\<not> sint (storageThresholdSize waiting_one) < sint (activeListeners waiting_one)
   \<and> tick_flushes (tick 64 (tick_at 1700000000001000001) waiting_one)
   \<and> \<not> tick_flushes (tick 64 (tick_at 1700000000001000000) waiting_one)"
proof -
  have h: "\<not> sint (storageThresholdSize waiting_one) < sint (activeListeners waiting_one)"
    by (simp add: waiting_one_def)
  show ?thesis
    using h tick_time_trigger [OF h, of 64 "tick_at 1700000000001000001"]
      tick_time_trigger [OF h, of 64 "tick_at 1700000000001000000"]
    by (simp add: waiting_one_def tick_at_def)
qed

text \<open>
  Claim C7 at a concrete cache. The maximum is configured as 4294967295 (\<^verbatim>\<open>WithMaxSize\<close> takes
  a \<^verbatim>\<open>uint\<close>); \<^verbatim>\<open>newCache\<close> stores \<^verbatim>\<open>int32(size)\<close>, which is -1. No listener waits, so the
  counter 0 is not greater than the configured maximum; yet the tick flushes by the size
  trigger, since 0 is greater than the stored -1.
\<close>

theorem size_trigger_wrapped_maxSize:
  "activeListeners (newCache 1700000000000000999 1000000 50000 4294967295) = 0
   \<and> sint (storageThresholdSize (newCache 1700000000000000999 1000000 50000 4294967295)) = - 1
   \<and> tick 64 (tick_at 1700000000000050000) (newCache 1700000000000000999 1000000 50000 4294967295)
       = Flush SizeTrigger
           (runPipeline 64 env_ok (newCache 1700000000000000999 1000000 50000 4294967295))
   \<and> fst (runPipeline 64 env_ok (newCache 1700000000000000999 1000000 50000 4294967295)) = Completed"
  by (simp add: newCache_def tick_def tick_at_def flush_eval env_ok_def range_reversed_def)

text \<open>
  Claim C8. On a running cache \<^verbatim>\<open>enqueue\<close> returns a fresh open handle. If the storage has no
  entry for the fingerprint, it gets one with the kind, the arguments and the listener list
  that holds just this handle; if it has one, the handle is appended to the entry's listener
  list and nothing else of the entry changes. No other entry changes, and the listener
  counter grows by one.
\<close>

theorem enqueue_when_running:
  assumes "\<not> stopped c"
  shows "case enqueue sha256 k as c of (resultCh, c') \<Rightarrow>
           resultCh = length (chans c)
           \<and> chans c' = chans c @ [\<lparr>chan_closed = False, chan_buf = []\<rparr>]
           \<and> (map_of (storage c) (hashStringSlice sha256 k as) = None \<longrightarrow>
                map_of (storage c') (hashStringSlice sha256 k as)
                  = Some \<lparr>args = as, listeners = [resultCh], kind = k\<rparr>)
           \<and> (\<forall>ro. map_of (storage c) (hashStringSlice sha256 k as) = Some ro \<longrightarrow>
                map_of (storage c') (hashStringSlice sha256 k as)
                  = Some (ro\<lparr>listeners := listeners ro @ [resultCh]\<rparr>))
           \<and> (\<forall>hash. hash \<noteq> hashStringSlice sha256 k as \<longrightarrow>
                map_of (storage c') hash = map_of (storage c) hash)
           \<and> activeListeners c' = activeListeners c + 1"
  using assms
  by (cases "map_of (storage c) (hashStringSlice sha256 k as)")
     (auto simp: enqueue_def make_chan_def update_conv' map_add_def split: option.splits)

theorem enqueue_when_running_witness:
  "\<not> stopped two_ops \<and> \<not> stopped (newCache 1700000000000000999 1000000 50000 100)
   \<and> enqueue test_digest HDel [''abc''] two_ops =
       (3, two_ops\<lparr>storage := [(fp_abc, \<lparr>args = [''abc''], listeners = [0, 1, 3], kind = HDel\<rparr>),
                                 (fp_a_b_c, \<lparr>args = [''a'', ''b'', ''c''], listeners = [2], kind = HDel\<rparr>)],
                    activeListeners := 4,
                    chans := [open_chan, open_chan, open_chan, open_chan]\<rparr>)
   \<and> map_of (storage (snd (enqueue test_digest HDel [''abc''] (newCache 1700000000000000999 1000000 50000 100)))) fp_abc
       = Some \<lparr>args = [''abc''], listeners = [0], kind = HDel\<rparr>"
proof -
  have h1: "\<not> stopped two_ops" by (simp add: two_ops_def)
  have h2: "\<not> stopped (newCache 1700000000000000999 1000000 50000 100)" by (simp add: newCache_def)
  have e: "enqueue test_digest HDel [''abc''] two_ops =
       (3, two_ops\<lparr>storage := [(fp_abc, \<lparr>args = [''abc''], listeners = [0, 1, 3], kind = HDel\<rparr>),
                                 (fp_a_b_c, \<lparr>args = [''a'', ''b'', ''c''], listeners = [2], kind = HDel\<rparr>)],
                    activeListeners := 4,
                    chans := [open_chan, open_chan, open_chan, open_chan]\<rparr>)"
    by (simp add: enqueue_def make_chan_def test_digest_fp_abc two_ops_def open_chan_def)
  from enqueue_when_running [OF h2, of test_digest HDel "[''abc'']"]
  have "map_of (storage (snd (enqueue test_digest HDel [''abc''] (newCache 1700000000000000999 1000000 50000 100)))) fp_abc
       = Some \<lparr>args = [''abc''], listeners = [0], kind = HDel\<rparr>"
    by (simp add: case_prod_beta test_digest_fp_abc newCache_def)
  with h1 h2 e enqueue_when_running [OF h1, of test_digest HDel "[''abc'']"] show ?thesis
    by simp
qed

text \<open>
  Claim C9 at a concrete flush. Before the flush the counter is 3, the number of handles in
  the storage. The caller of handle 1 has closed it. The flush returns; the storage is empty,
  yet the counter is 1: the entry of the closed handle was removed whole, and the counter was
  decremented only for the listeners served before the panic.
\<close>

theorem counter_after_recovered_panic:
  "activeListeners two_ops = of_nat (length (all_listeners (storage two_ops)))
   \<and> fst (runPipeline 64 env_ok (two_ops\<lparr>chans := close_chan 1 (chans two_ops)\<rparr>)) = Completed
   \<and> storage (snd (snd (runPipeline 64 env_ok (two_ops\<lparr>chans := close_chan 1 (chans two_ops)\<rparr>)))) = []
   \<and> activeListeners (snd (snd (runPipeline 64 env_ok (two_ops\<lparr>chans := close_chan 1 (chans two_ops)\<rparr>)))) = 1"
  unfolding two_ops_flush_second_closed
  by (simp add: two_ops_def all_listeners_def)

text \<open>
  Claim C10. Each normalize function gives back the arguments its transform function was
  called with; for \<^verbatim>\<open>Expire\<close>, when the duration's nanoseconds fit Go's \<^verbatim>\<open>int\<close> (of 32 or 64
  bits).
\<close>

theorem normalize_transform_roundtrip: 
  "normalizeHDel (transformHDel key flds) = Some (key, flds)
   \<and> ((intSize = 32 \<or> intSize = 64) \<and> - (2 ^ (intSize - 1)) \<le> d \<and> d < 2 ^ (intSize - 1)
        \<longrightarrow> normalizeExpire intSize (transformExpire intSize key d) = Some (key, d))
   \<and> normalizeDel (transformDel keys) = keys
   \<and> normalizeMGet (transformMGet keys) = keys
   \<and> normalizeHGet (transformHGet key field) = Some (key, field)
   \<and> normalizeGet (transformGet key) = Some key
   \<and> normalizeHGetAll (transformHGetAll key) = Some key
   \<and> normalizeSMembers (transformSMembers key) = Some key"
proof -
  have hdel: "normalizeHDel (transformHDel key flds) = Some (key, flds)"
    by (cases flds) (simp_all add: normalizeHDel_def transformHDel_def)
  have expire: "normalizeExpire intSize (transformExpire intSize key d) = Some (key, d)"
    if "intSize = 32 \<or> intSize = 64" "- (2 ^ (intSize - 1)) \<le> d" "d < 2 ^ (intSize - 1)"
  proof -
    from that(1) have "0 < intSize" by auto
    then show ?thesis using that(2,3)
      by (simp add: normalizeExpire_def transformExpire_def go_int_id Atoi_Itoa)
  qed
  show ?thesis using hdel expire
    by (simp add: normalizeDel_def transformDel_def normalizeMGet_def transformMGet_def
        normalizeHGet_def transformHGet_def normalizeGet_def transformGet_def
        normalizeHGetAll_def transformHGetAll_def normalizeSMembers_def transformSMembers_def)
qed

theorem normalize_transform_roundtrip_witness:
  "(64 = (32::nat) \<or> 64 = (64::nat)) \<and> - (2 ^ (64 - 1)) \<le> (- 1500000000 :: int)
   \<and> (- 1500000000 :: int) < 2 ^ (64 - 1)
   \<and> normalizeHDel (transformHDel ''k'' [''f1'', ''f2'']) = Some (''k'', [''f1'', ''f2''])
   \<and> normalizeExpire 64 (transformExpire 64 ''k'' (- 1500000000)) = Some (''k'', - 1500000000)"
  using normalize_transform_roundtrip [of "''k''" "[''f1'', ''f2'']" 64 "- 1500000000"]
  by simp

end
